theory Spec2Isabelle
  imports Main
begin

section \<open>The wait and retry layer of the QA automation framework\<close>

text \<open>
  The theory embeds the polling and safe-interaction operations of the framework:
  \<^item> \<open>WaitUtils.waitWithBackoff\<close> and \<open>WaitUtils.waitForElementToDisappear\<close>
    (\<^verbatim>\<open>src/utils/WaitUtils.ts\<close>),
  \<^item> \<open>BasePage.waitForVisible\<close>, \<open>BasePage.waitForClickable\<close>, \<open>BasePage.safeClick\<close>
    and \<open>BasePage.safeType\<close> (the page-object base class).

  The browser driver (\<open>$\<close>, the element methods, \<open>browser.pause\<close>) and the condition
  handed to the poller are external and effectful. They are parameters of the model:
  functions on a world \<open>'w\<close> that return an error or a value together with the next
  world. Every \<^verbatim>\<open>await\<close> of a driver call can reject, so every driver call is a
  function into a sum with the error on the left. \<open>browser.pause\<close> is a timer and the
  logger a sink: neither rejects, but the pause may change the world (time passes).

  What the code does to its environment is recorded, in order, in a trace of events:
  each driver call, each evaluation of the condition, each pause with its delay and each
  logger call with its level and message. A log event is the call of the \<open>Logger\<close>
  method; the component name of the logger and the level filter of its transports are
  left out.

  TypeScript's \<open>number\<close> is modelled as \<open>int\<close>: the counters and delays of these
  functions are integers, and the arithmetic of the source is exact on them below
  \<open>2^53\<close>.
\<close>

subsection \<open>Errors, log levels, events\<close>

text \<open>
  A thrown JavaScript \<open>Error\<close>: its \<open>name\<close> and its \<open>message\<close>. The driver
  rejects with \<open>Error\<close> objects.
\<close>

datatype js_error = JsError (err_name: string) (err_message: string)

text \<open>\<open>new Error(msg)\<close>.\<close>

definition new_Error :: "string \<Rightarrow> js_error" where
  "new_Error msg = JsError ''Error'' msg"

text \<open>
  \<open>${error}\<close> in a template string calls \<open>Error.prototype.toString\<close>: the name, the
  message, or both separated by a colon and a space.
\<close>

definition error_toString :: "js_error \<Rightarrow> string" where
  "error_toString e =
     (if err_name e = [] then err_message e
      else if err_message e = [] then err_name e
      else err_name e @ '': '' @ err_message e)"

text \<open>The methods of \<open>Logger\<close>: one level each.\<close>

datatype level = LvError | LvWarn | LvInfo | LvDebug | LvVerbose

datatype 'el event =
    Log level string
  | Pause int
  | Resolve string
  | WaitForClickable 'el int
  | WaitForDisplayed 'el int bool
  | Click 'el
  | ClearValue 'el
  | SetValue 'el string
  | CondEval

subsection \<open>Numbers in template strings\<close>

text \<open>
  The decimal digits of an integer, as JavaScript prints a number below \<open>2^53\<close>.
\<close>

fun show_nat :: "nat \<Rightarrow> string" where
  "show_nat n =
     (if n < 10 then [''0123456789'' ! n]
      else show_nat (n div 10) @ [''0123456789'' ! (n mod 10)])"

declare show_nat.simps [simp del]

definition show_int :: "int \<Rightarrow> string" where
  "show_int i = (if i < 0 then CHR ''-'' # show_nat (nat (- i)) else show_nat (nat i))"

subsection \<open>The driver and the state\<close>

text \<open>
  The driver operations the two classes call. \<open>resolve\<close> is \<open>$(selector)\<close>;
  \<open>el_waitForDisplayed\<close> takes the timeout and the \<open>reverse\<close> flag.
\<close>

record ('w, 'el) driver =
  resolve :: "string \<Rightarrow> 'w \<Rightarrow> (js_error + 'el) \<times> 'w"
  el_waitForClickable :: "'el \<Rightarrow> int \<Rightarrow> 'w \<Rightarrow> (js_error + unit) \<times> 'w"
  el_waitForDisplayed :: "'el \<Rightarrow> int \<Rightarrow> bool \<Rightarrow> 'w \<Rightarrow> (js_error + unit) \<times> 'w"
  el_click :: "'el \<Rightarrow> 'w \<Rightarrow> (js_error + unit) \<times> 'w"
  el_clearValue :: "'el \<Rightarrow> 'w \<Rightarrow> (js_error + unit) \<times> 'w"
  el_setValue :: "'el \<Rightarrow> string \<Rightarrow> 'w \<Rightarrow> (js_error + unit) \<times> 'w"
  browser_pause :: "int \<Rightarrow> 'w \<Rightarrow> 'w"

record ('w, 'el) state =
  world :: 'w
  trace :: "'el event list"

text \<open>A fallible external call: it is recorded, then run on the world.\<close>

definition call ::
  "'el event \<Rightarrow> ('w \<Rightarrow> (js_error + 'a) \<times> 'w) \<Rightarrow> ('w, 'el) state
     \<Rightarrow> (js_error + 'a) \<times> ('w, 'el) state" where
  "call ev f s =
     (case f (world s) of (r, w') \<Rightarrow> (r, \<lparr>world = w', trace = trace s @ [ev]\<rparr>))"

definition logger :: "level \<Rightarrow> string \<Rightarrow> ('w, 'el) state \<Rightarrow> ('w, 'el) state" where
  "logger lv msg s = s\<lparr>trace := trace s @ [Log lv msg]\<rparr>"

definition pause :: "('w, 'el) driver \<Rightarrow> int \<Rightarrow> ('w, 'el) state \<Rightarrow> ('w, 'el) state" where
  "pause d ms s = \<lparr>world = browser_pause d ms (world s), trace = trace s @ [Pause ms]\<rparr>"

subsection \<open>BasePage\<close>

text \<open>
  \<^verbatim>\<open>
  async waitForVisible(selector, timeout = 10000) {
    const element = await $(selector);
    await element.waitForDisplayed({ timeout });
    return element;
  }
  async waitForClickable(selector, timeout = 10000) {
    const element = await $(selector);
    await element.waitForClickable({ timeout });
    return element;
  }
  \<close>
\<close>

definition waitForVisible ::
  "('w, 'el) driver \<Rightarrow> string \<Rightarrow> int \<Rightarrow> ('w, 'el) state
     \<Rightarrow> (js_error + 'el) \<times> ('w, 'el) state" where
  "waitForVisible d selector timeout s =
     (case call (Resolve selector) (resolve d selector) s of
        (Inl e, s1) \<Rightarrow> (Inl e, s1)
      | (Inr element, s1) \<Rightarrow>
          (case call (WaitForDisplayed element timeout False)
                  (el_waitForDisplayed d element timeout False) s1 of
             (Inl e, s2) \<Rightarrow> (Inl e, s2)
           | (Inr _, s2) \<Rightarrow> (Inr element, s2)))"

definition waitForClickable ::
  "('w, 'el) driver \<Rightarrow> string \<Rightarrow> int \<Rightarrow> ('w, 'el) state
     \<Rightarrow> (js_error + 'el) \<times> ('w, 'el) state" where
  "waitForClickable d selector timeout s =
     (case call (Resolve selector) (resolve d selector) s of
        (Inl e, s1) \<Rightarrow> (Inl e, s1)
      | (Inr element, s1) \<Rightarrow>
          (case call (WaitForClickable element timeout)
                  (el_waitForClickable d element timeout) s1 of
             (Inl e, s2) \<Rightarrow> (Inl e, s2)
           | (Inr _, s2) \<Rightarrow> (Inr element, s2)))"

text \<open>The default of the \<open>timeout\<close> parameter of both.\<close>

definition default_timeout :: int where
  "default_timeout = 10000"

text \<open>
  \<^verbatim>\<open>
  async safeClick(selector, retries = 3) {
    for (let i = 0; i < retries; i++) {
      try {
        const element = await this.waitForClickable(selector);
        await element.click();
        this.logger.info(`Successfully clicked element: ${selector}`);
        return;
      } catch (error) {
        this.logger.warn(`Click attempt ${i + 1} failed for ${selector}: ${error}`);
        if (i === retries - 1) throw error;
        await browser.pause(1000);
      }
    }
  }
  \<close>
  \<open>safeClick_try\<close> is the body of the \<open>try\<close> block, \<open>safeClick_loop\<close> the loop
  from index \<open>i\<close>.
\<close>

definition safeClick_try ::
  "('w, 'el) driver \<Rightarrow> string \<Rightarrow> ('w, 'el) state \<Rightarrow> (js_error + unit) \<times> ('w, 'el) state" where
  "safeClick_try d selector s =
     (case waitForClickable d selector default_timeout s of
        (Inl e, s1) \<Rightarrow> (Inl e, s1)
      | (Inr element, s1) \<Rightarrow>
          (case call (Click element) (el_click d element) s1 of
             (Inl e, s2) \<Rightarrow> (Inl e, s2)
           | (Inr _, s2) \<Rightarrow>
               (Inr (), logger LvInfo (''Successfully clicked element: '' @ selector) s2)))"

definition click_failed_msg :: "int \<Rightarrow> string \<Rightarrow> js_error \<Rightarrow> string" where
  "click_failed_msg i selector e =
     ''Click attempt '' @ show_int (i + 1) @ '' failed for '' @ selector @ '': ''
       @ error_toString e"

function safeClick_loop ::
  "('w, 'el) driver \<Rightarrow> string \<Rightarrow> int \<Rightarrow> int \<Rightarrow> ('w, 'el) state
     \<Rightarrow> (js_error + unit) \<times> ('w, 'el) state" where
  "safeClick_loop d selector retries i s =
     (if i < retries then
        (case safeClick_try d selector s of
           (Inr _, s1) \<Rightarrow> (Inr (), s1)
         | (Inl e, s1) \<Rightarrow>
             (if i = retries - 1
              then (Inl e, logger LvWarn (click_failed_msg i selector e) s1)
              else safeClick_loop d selector retries (i + 1)
                     (pause d 1000 (logger LvWarn (click_failed_msg i selector e) s1))))
      else (Inr (), s))"
  by pat_completeness auto
termination
  by (relation "measure (\<lambda>(d, selector, retries, i, s). nat (retries - i))") auto

declare safeClick_loop.simps [simp del]

definition safeClick ::
  "('w, 'el) driver \<Rightarrow> string \<Rightarrow> int \<Rightarrow> ('w, 'el) state
     \<Rightarrow> (js_error + unit) \<times> ('w, 'el) state" where
  "safeClick d selector retries s = safeClick_loop d selector retries 0 s"

text \<open>
  \<^verbatim>\<open>
  async safeType(selector, text) {
    const element = await this.waitForVisible(selector);
    await element.clearValue();
    await element.setValue(text);
    this.logger.info(`Successfully typed text into element: ${selector}`);
  }
  \<close>
\<close>

definition safeType ::
  "('w, 'el) driver \<Rightarrow> string \<Rightarrow> string \<Rightarrow> ('w, 'el) state
     \<Rightarrow> (js_error + unit) \<times> ('w, 'el) state" where
  "safeType d selector text s =
     (case waitForVisible d selector default_timeout s of
        (Inl e, s1) \<Rightarrow> (Inl e, s1)
      | (Inr element, s1) \<Rightarrow>
          (case call (ClearValue element) (el_clearValue d element) s1 of
             (Inl e, s2) \<Rightarrow> (Inl e, s2)
           | (Inr _, s2) \<Rightarrow>
               (case call (SetValue element text) (el_setValue d element text) s2 of
                  (Inl e, s3) \<Rightarrow> (Inl e, s3)
                | (Inr _, s3) \<Rightarrow>
                    (Inr (),
                     logger LvInfo (''Successfully typed text into element: '' @ selector) s3))))"

subsection \<open>WaitUtils\<close>

text \<open>
  \<^verbatim>\<open>
  async waitForElementToDisappear(selector, timeout = 10000) {
    this.logger.debug(`Waiting for element to disappear: ${selector}`);
    try {
      const element = await $(selector);
      await element.waitForDisplayed({ timeout, reverse: true });
    } catch (error) {
      this.logger.debug(`Element ${selector} not found or already disappeared`);
    }
  }
  \<close>
\<close>

definition disappear_try ::
  "('w, 'el) driver \<Rightarrow> string \<Rightarrow> int \<Rightarrow> ('w, 'el) state
     \<Rightarrow> (js_error + unit) \<times> ('w, 'el) state" where
  "disappear_try d selector timeout s =
     (case call (Resolve selector) (resolve d selector) s of
        (Inl e, s1) \<Rightarrow> (Inl e, s1)
      | (Inr element, s1) \<Rightarrow>
          call (WaitForDisplayed element timeout True)
            (el_waitForDisplayed d element timeout True) s1)"

definition waitForElementToDisappear ::
  "('w, 'el) driver \<Rightarrow> string \<Rightarrow> int \<Rightarrow> ('w, 'el) state
     \<Rightarrow> (js_error + unit) \<times> ('w, 'el) state" where
  "waitForElementToDisappear d selector timeout s =
     (case disappear_try d selector timeout
             (logger LvDebug (''Waiting for element to disappear: '' @ selector) s) of
        (Inl e, s1) \<Rightarrow>
          (Inr (),
           logger LvDebug (''Element '' @ selector @ '' not found or already disappeared'') s1)
      | (Inr _, s1) \<Rightarrow> (Inr (), s1))"

text \<open>
  \<^verbatim>\<open>
  async waitWithBackoff(condition, maxAttempts = 5, baseDelay = 1000) {
    this.logger.debug(`Waiting with exponential backoff, max attempts: ${maxAttempts}`);
    for (let attempt = 1; attempt <= maxAttempts; attempt++) {
      try {
        if (await condition()) {
          return;
        }
      } catch (error) {
        this.logger.debug(`Attempt ${attempt} failed: ${error}`);
      }
      if (attempt < maxAttempts) {
        const delay = baseDelay * Math.pow(2, attempt - 1);
        this.logger.debug(`Waiting ${delay}ms before next attempt`);
        await browser.pause(delay);
      }
    }
    throw new Error(`Condition not met after ${maxAttempts} attempts with exponential backoff`);
  }
  \<close>
  The condition is a zero-argument effectful operation: a function on the world that
  returns a boolean or throws. \<open>backoff_try\<close> is the \<open>try\<close>/\<open>catch\<close> statement: it yields
  \<open>True\<close> when the function returns from inside it. \<open>backoff_delay\<close> is the \<open>if\<close> after
  it, \<open>backoff_loop\<close> the loop from \<open>attempt\<close>.
\<close>

type_synonym 'w condition = "'w \<Rightarrow> (js_error + bool) \<times> 'w"

definition backoff_try ::
  "'w condition \<Rightarrow> int \<Rightarrow> ('w, 'el) state \<Rightarrow> bool \<times> ('w, 'el) state" where
  "backoff_try condition attempt s =
     (case call CondEval condition s of
        (Inr b, s1) \<Rightarrow> (b, s1)
      | (Inl e, s1) \<Rightarrow>
          (False,
           logger LvDebug
             (''Attempt '' @ show_int attempt @ '' failed: '' @ error_toString e) s1))"

definition delay_of :: "int \<Rightarrow> int \<Rightarrow> int" where
  "delay_of baseDelay attempt = baseDelay * 2 ^ nat (attempt - 1)"

definition backoff_delay ::
  "('w, 'el) driver \<Rightarrow> int \<Rightarrow> int \<Rightarrow> int \<Rightarrow> ('w, 'el) state \<Rightarrow> ('w, 'el) state" where
  "backoff_delay d maxAttempts baseDelay attempt s =
     (if attempt < maxAttempts then
        pause d (delay_of baseDelay attempt)
          (logger LvDebug
             (''Waiting '' @ show_int (delay_of baseDelay attempt) @ ''ms before next attempt'') s)
      else s)"

definition not_met_error :: "int \<Rightarrow> js_error" where
  "not_met_error maxAttempts =
     new_Error (''Condition not met after '' @ show_int maxAttempts
                  @ '' attempts with exponential backoff'')"

function backoff_loop ::
  "('w, 'el) driver \<Rightarrow> 'w condition \<Rightarrow> int \<Rightarrow> int \<Rightarrow> int \<Rightarrow> ('w, 'el) state
     \<Rightarrow> (js_error + unit) \<times> ('w, 'el) state" where
  "backoff_loop d condition maxAttempts baseDelay attempt s =
     (if attempt \<le> maxAttempts then
        (case backoff_try condition attempt s of
           (True, s1) \<Rightarrow> (Inr (), s1)
         | (False, s1) \<Rightarrow>
             backoff_loop d condition maxAttempts baseDelay (attempt + 1)
               (backoff_delay d maxAttempts baseDelay attempt s1))
      else (Inl (not_met_error maxAttempts), s))"
  by pat_completeness auto
termination
  by (relation "measure (\<lambda>(d, c, maxAttempts, baseDelay, attempt, s). nat (maxAttempts + 1 - attempt))")
    auto

declare backoff_loop.simps [simp del]

definition waitWithBackoff ::
  "('w, 'el) driver \<Rightarrow> 'w condition \<Rightarrow> int \<Rightarrow> int \<Rightarrow> ('w, 'el) state
     \<Rightarrow> (js_error + unit) \<times> ('w, 'el) state" where
  "waitWithBackoff d condition maxAttempts baseDelay s =
     backoff_loop d condition maxAttempts baseDelay 1
       (logger LvDebug
          (''Waiting with exponential backoff, max attempts: '' @ show_int maxAttempts) s)"

subsection \<open>Observing a run\<close>

text \<open>
  The events a call appended to the trace, and what can be read off them: the messages
  logged at one level, the delays of the pauses, the timeouts of the readiness waits, and
  the events that are not log entries.
\<close>

definition emitted :: "('w, 'el) state \<Rightarrow> ('w, 'el) state \<Rightarrow> 'el event list" where
  "emitted s s' = drop (length (trace s)) (trace s')"

fun logs_of :: "level \<Rightarrow> 'el event list \<Rightarrow> string list" where
  "logs_of lv [] = []"
| "logs_of lv (Log l m # evs) = (if l = lv then m # logs_of lv evs else logs_of lv evs)"
| "logs_of lv (_ # evs) = logs_of lv evs"

fun pauses_of :: "'el event list \<Rightarrow> int list" where
  "pauses_of [] = []"
| "pauses_of (Pause ms # evs) = ms # pauses_of evs"
| "pauses_of (_ # evs) = pauses_of evs"

fun wait_timeouts :: "'el event list \<Rightarrow> int list" where
  "wait_timeouts [] = []"
| "wait_timeouts (WaitForClickable el t # evs) = t # wait_timeouts evs"
| "wait_timeouts (WaitForDisplayed el t r # evs) = t # wait_timeouts evs"
| "wait_timeouts (_ # evs) = wait_timeouts evs"

fun calls_of :: "'el event list \<Rightarrow> 'el event list" where
  "calls_of [] = []"
| "calls_of (Log l m # evs) = calls_of evs"
| "calls_of (ev # evs) = ev # calls_of evs"

text \<open>
  The schedule of a backoff run with \<open>n\<close> evaluations, as the specification words it:
  the evaluations alternate with the pauses, the pause after evaluation \<open>k\<close> lasts
  \<open>baseDelay * 2^(k-1)\<close>, and no pause follows the last evaluation. \<open>sched_from\<close>
  is the same schedule started at attempt \<open>a\<close>, in the shape of the loop.
\<close>

fun sched_from :: "int \<Rightarrow> int \<Rightarrow> nat \<Rightarrow> 'el event list" where
  "sched_from b a 0 = []"
| "sched_from b a (Suc 0) = [CondEval]"
| "sched_from b a (Suc (Suc n)) = CondEval # Pause (delay_of b a) # sched_from b (a + 1) (Suc n)"

definition backoff_schedule :: "int \<Rightarrow> nat \<Rightarrow> 'el event list" where
  "backoff_schedule baseDelay n =
     (if n = 0 then []
      else CondEval # concat (map (\<lambda>k. [Pause (baseDelay * 2 ^ (k - 1)), CondEval]) [1..<n]))"

text \<open>
  The world in which the condition is evaluated after \<open>j\<close> evaluations that did not
  return true, each followed by its pause, when polling started with attempt number
  \<open>a\<close> in world \<open>w\<close>. It gives a meaning to "the k-th evaluation of the
  condition" that does not depend on the loop.
\<close>

fun world_after ::
  "('w, 'el) driver \<Rightarrow> 'w condition \<Rightarrow> int \<Rightarrow> int \<Rightarrow> 'w \<Rightarrow> nat \<Rightarrow> 'w" where
  "world_after d c b a w 0 = w"
| "world_after d c b a w (Suc j) =
     world_after d c b (a + 1) (browser_pause d (delay_of b a) (snd (c w))) j"

subsection \<open>Conditions that throw any value\<close>

text \<open>
  The condition handed to \<open>waitWithBackoff\<close> is a callback of the caller, and JavaScript
  lets it throw any value, not only an \<open>Error\<close> object. The \<open>catch\<close> block puts the
  caught value into a template string, \<open>${error}\<close>, and that conversion itself throws a
  \<open>TypeError\<close> when the value has no string form, as a \<open>Symbol\<close> has none. The
  definitions above are the poller on conditions that throw \<open>Error\<close> objects, where the
  conversion always succeeds; the definitions here are the same code on conditions that
  throw either kind of value.
\<close>

datatype thrown = Thrown_Error js_error | Thrown_Symbol string

definition template_string :: "thrown \<Rightarrow> js_error + string" where
  "template_string x =
     (case x of
        Thrown_Error e \<Rightarrow> Inr (error_toString e)
      | Thrown_Symbol description \<Rightarrow>
          Inl (JsError ''TypeError'' ''Cannot convert a Symbol value to a string''))"

type_synonym 'w callback = "'w \<Rightarrow> (thrown + bool) \<times> 'w"

definition evaluate ::
  "'w callback \<Rightarrow> ('w, 'el) state \<Rightarrow> (thrown + bool) \<times> ('w, 'el) state" where
  "evaluate condition s =
     (case condition (world s) of (r, w') \<Rightarrow> (r, \<lparr>world = w', trace = trace s @ [CondEval]\<rparr>))"

text \<open>
  The \<open>try\<close>/\<open>catch\<close> statement: the boolean the condition returned, \<open>False\<close> after a
  caught value was logged, or the \<open>TypeError\<close> thrown inside the \<open>catch\<close> block, which
  nothing catches.
\<close>

definition backoff_try_any ::
  "'w callback \<Rightarrow> int \<Rightarrow> ('w, 'el) state \<Rightarrow> (js_error + bool) \<times> ('w, 'el) state" where
  "backoff_try_any condition attempt s =
     (case evaluate condition s of
        (Inr b, s1) \<Rightarrow> (Inr b, s1)
      | (Inl error, s1) \<Rightarrow>
          (case template_string error of
             Inl type_error \<Rightarrow> (Inl type_error, s1)
           | Inr text \<Rightarrow>
               (Inr False,
                logger LvDebug (''Attempt '' @ show_int attempt @ '' failed: '' @ text) s1)))"

function backoff_loop_any ::
  "('w, 'el) driver \<Rightarrow> 'w callback \<Rightarrow> int \<Rightarrow> int \<Rightarrow> int \<Rightarrow> ('w, 'el) state
     \<Rightarrow> (js_error + unit) \<times> ('w, 'el) state" where
  "backoff_loop_any d condition maxAttempts baseDelay attempt s =
     (if attempt \<le> maxAttempts then
        (case backoff_try_any condition attempt s of
           (Inl type_error, s1) \<Rightarrow> (Inl type_error, s1)
         | (Inr True, s1) \<Rightarrow> (Inr (), s1)
         | (Inr False, s1) \<Rightarrow>
             backoff_loop_any d condition maxAttempts baseDelay (attempt + 1)
               (backoff_delay d maxAttempts baseDelay attempt s1))
      else (Inl (not_met_error maxAttempts), s))"
  by pat_completeness auto
termination
  by (relation "measure (\<lambda>(d, c, maxAttempts, baseDelay, attempt, s). nat (maxAttempts + 1 - attempt))")
    auto

declare backoff_loop_any.simps [simp del]

definition waitWithBackoff_any ::
  "('w, 'el) driver \<Rightarrow> 'w callback \<Rightarrow> int \<Rightarrow> int \<Rightarrow> ('w, 'el) state
     \<Rightarrow> (js_error + unit) \<times> ('w, 'el) state" where
  "waitWithBackoff_any d condition maxAttempts baseDelay s =
     backoff_loop_any d condition maxAttempts baseDelay 1
       (logger LvDebug
          (''Waiting with exponential backoff, max attempts: '' @ show_int maxAttempts) s)"

text \<open>A condition that throws \<open>Error\<close> objects, as a callback.\<close>

definition throws_errors :: "'w condition \<Rightarrow> 'w callback" where
  "throws_errors c w =
     (case c w of (Inl e, w') \<Rightarrow> (Inl (Thrown_Error e), w') | (Inr b, w') \<Rightarrow> (Inr b, w'))"

text \<open>
  Two callbacks on a counter of evaluations: both return true from the second evaluation
  on; at the first, one throws a \<open>Symbol\<close> and the other an \<open>Error\<close>. And a driver on
  any world whose calls all succeed and whose pause leaves the world alone.
  \<^verbatim>\<open>
  let n = 0;
  const symbol_first = async () => { if (n++ === 0) throw Symbol('not ready'); return true; };
  \<close>
\<close>

definition symbol_first :: "nat callback" where
  "symbol_first n = (if n = 0 then Inl (Thrown_Symbol ''not ready'') else Inr True, Suc n)"

definition error_first :: "nat callback" where
  "error_first n =
     (if n = 0 then Inl (Thrown_Error (new_Error ''not ready'')) else Inr True, Suc n)"

definition idle_driver :: "('w, nat) driver" where
  "idle_driver =
     \<lparr>resolve = (\<lambda>selector w. (Inr (length selector), w)),
      el_waitForClickable = (\<lambda>el timeout w. (Inr (), w)),
      el_waitForDisplayed = (\<lambda>el timeout reverse w. (Inr (), w)),
      el_click = (\<lambda>el w. (Inr (), w)),
      el_clearValue = (\<lambda>el w. (Inr (), w)),
      el_setValue = (\<lambda>el text w. (Inr (), w)),
      browser_pause = (\<lambda>ms w. w)\<rparr>"

text \<open>
  The state a \<open>BasePage\<close> method reaches from \<open>s\<close>: the world it leaves and the events
  it has appended.
\<close>

definition after :: "('w, 'el) state \<Rightarrow> 'w \<Rightarrow> 'el event list \<Rightarrow> ('w, 'el) state" where
  "after s w evs = \<lparr>world = w, trace = trace s @ evs\<rparr>"

text \<open>
  The state in which attempt \<open>j + 1\<close> of \<open>safeClick\<close> starts when the \<open>j\<close> attempts
  before it have failed: each failure is logged at warn level with its attempt number
  and followed by a pause of 1000 ms.
\<close>

fun attempt_start ::
  "('w, 'el) driver \<Rightarrow> string \<Rightarrow> ('w, 'el) state \<Rightarrow> nat \<Rightarrow> ('w, 'el) state" where
  "attempt_start d selector s 0 = s"
| "attempt_start d selector s (Suc j) =
     (case safeClick_try d selector (attempt_start d selector s j) of
        (Inl e, s') \<Rightarrow> pause d 1000 (logger LvWarn (click_failed_msg (int j) selector e) s')
      | (Inr u, s') \<Rightarrow> s')"

subsection \<open>A scripted environment\<close>

text \<open>
  A concrete world for running the model: a script of outcomes. Each click, each
  \<open>setValue\<close> and each evaluation of the condition consumes the head of the script; a
  click or \<open>setValue\<close> fails when the head is an error, the condition throws the error
  or returns the boolean. Resolution and the readiness waits succeed, the element handle
  is a number, and pausing leaves the script as it is.
\<close>

type_synonym script = "(js_error + bool) list"

definition scripted_action :: "script \<Rightarrow> (js_error + unit) \<times> script" where
  "scripted_action w =
     (case w of [] \<Rightarrow> (Inr (), []) | Inl e # r \<Rightarrow> (Inl e, r) | Inr b # r \<Rightarrow> (Inr (), r))"

definition scripted_driver :: "(script, nat) driver" where
  "scripted_driver =
     \<lparr>resolve = (\<lambda>selector w. (Inr (length selector), w)),
      el_waitForClickable = (\<lambda>el timeout w. (Inr (), w)),
      el_waitForDisplayed = (\<lambda>el timeout reverse w. (Inr (), w)),
      el_click = (\<lambda>el w. scripted_action w),
      el_clearValue = (\<lambda>el w. (Inr (), w)),
      el_setValue = (\<lambda>el text w. scripted_action w),
      browser_pause = (\<lambda>ms w. w)\<rparr>"

definition scripted_condition :: "script condition" where
  "scripted_condition w = (case w of [] \<Rightarrow> (Inr False, []) | x # r \<Rightarrow> (x, r))"

text \<open>A driver that finds no element: every resolution fails.\<close>

definition missing_driver :: "(script, nat) driver" where
  "missing_driver =
     scripted_driver\<lparr>resolve := (\<lambda>selector w. (Inl (new_Error ''no such element''), w))\<rparr>"

definition start :: "script \<Rightarrow> (script, nat) state" where
  "start w = \<lparr>world = w, trace = []\<rparr>"

section \<open>Properties\<close>

subsection \<open>Basic facts about the trace\<close>

lemma emitted_append: "trace s' = trace s @ evs \<Longrightarrow> emitted s s' = evs"
  by (simp add: emitted_def)

lemma logs_of_append: "logs_of lv (xs @ ys) = logs_of lv xs @ logs_of lv ys"
  by (induction lv xs rule: logs_of.induct) simp_all

lemma pauses_of_append: "pauses_of (xs @ ys) = pauses_of xs @ pauses_of ys"
  by (induction xs rule: pauses_of.induct) simp_all

lemma wait_timeouts_append: "wait_timeouts (xs @ ys) = wait_timeouts xs @ wait_timeouts ys"
  by (induction xs rule: wait_timeouts.induct) simp_all

lemma calls_of_append: "calls_of (xs @ ys) = calls_of xs @ calls_of ys"
  by (induction xs rule: calls_of.induct) simp_all

lemma call_trace: "call ev f s = (r, s') \<Longrightarrow> trace s' = trace s @ [ev]"
  by (auto simp: call_def split: prod.splits)

lemma logger_trace: "trace (logger lv msg s) = trace s @ [Log lv msg]"
  by (simp add: logger_def)

lemma pause_trace: "trace (pause d ms s) = trace s @ [Pause ms]"
  by (simp add: pause_def)

subsection \<open>safeClick with no attempt budget\<close>

text \<open>
  C9. With \<open>retries \<le> 0\<close> the loop body of \<open>safeClick\<close> is never entered: the call
  returns normally and leaves the world and the trace as they were, so nothing was
  resolved, clicked, logged or raised.
\<close>

theorem safeClick_nonpositive:
  "retries \<le> 0 \<Longrightarrow> safeClick d selector retries s = (Inr (), s)"
  by (simp add: safeClick_def safeClick_loop.simps)

theorem safeClick_nonpositive_witness:
  "safeClick scripted_driver ''#buy'' (- 1) (start [Inl (new_Error ''stale'')])
     = (Inr (), start [Inl (new_Error ''stale'')])"
  using safeClick_nonpositive [of "- 1" scripted_driver "''#buy''"
      "start [Inl (new_Error ''stale'')]"]
  by simp

subsection \<open>waitForElementToDisappear\<close>

lemma disappear_try_logs:
  "disappear_try d selector timeout s = (r, s') \<Longrightarrow>
     \<exists>evs. trace s' = trace s @ evs \<and> logs_of lv evs = []"
  unfolding disappear_try_def
  by (auto simp: call_def split: prod.splits sum.splits)

text \<open>
  C10. \<open>waitForElementToDisappear\<close> never throws. Whatever the resolution and the wait
  do, the call returns normally; the entries it logs at debug level are the opening
  message and, exactly when the resolution or the wait raised an error, the message that
  the element was not found or has already disappeared.
\<close>

theorem waitForElementToDisappear_never_throws:
  "fst (waitForElementToDisappear d selector timeout s) = Inr () \<and>
   logs_of LvDebug (emitted s (snd (waitForElementToDisappear d selector timeout s))) =
     (''Waiting for element to disappear: '' @ selector) #
     (if isl (fst (disappear_try d selector timeout
                (logger LvDebug (''Waiting for element to disappear: '' @ selector) s)))
      then [''Element '' @ selector @ '' not found or already disappeared''] else [])"
proof -
  let ?s0 = "logger LvDebug (''Waiting for element to disappear: '' @ selector) s"
  obtain r s1 where body: "disappear_try d selector timeout ?s0 = (r, s1)"
    by (cases "disappear_try d selector timeout ?s0")
  from disappear_try_logs [OF body, of LvDebug]
  obtain evs where evs: "trace s1 = trace ?s0 @ evs" "logs_of LvDebug evs = []"
    by blast
  show ?thesis
  proof (cases r)
    case (Inl e)
    with body evs show ?thesis
      by (simp add: waitForElementToDisappear_def emitted_def logger_trace logs_of_append)
  next
    case (Inr u)
    with body evs show ?thesis
      by (simp add: waitForElementToDisappear_def emitted_def logger_trace logs_of_append)
  qed
qed

theorem waitForElementToDisappear_never_throws_witness:
  "fst (waitForElementToDisappear missing_driver ''#spinner'' 10000 (start [])) = Inr () \<and>
   logs_of LvDebug
     (emitted (start []) (snd (waitForElementToDisappear missing_driver ''#spinner'' 10000 (start []))))
     = [''Waiting for element to disappear: #spinner'',
        ''Element #spinner not found or already disappeared'']"
  using waitForElementToDisappear_never_throws [of missing_driver "''#spinner''" 10000 "start []"]
  by (simp add: disappear_try_def call_def logger_def missing_driver_def scripted_driver_def
      start_def)

subsection \<open>The backoff loop\<close>

lemma count_list_append: "count_list (xs @ ys) x = count_list xs x + count_list ys x"
  by (induction xs) simp_all

lemma backoff_try_obs:
  assumes "backoff_try c a s = (b, s')"
  shows "\<exists>evs. trace s' = trace s @ evs \<and> calls_of evs = [CondEval] \<and>
           count_list evs CondEval = 1 \<and> world s' = snd (c (world s)) \<and>
           (b \<longleftrightarrow> fst (c (world s)) = Inr True)"
  using assms unfolding backoff_try_def call_def logger_def
  by (auto split: prod.splits sum.splits)

lemma backoff_delay_obs:
  "\<exists>evs. trace (backoff_delay d m b a s) = trace s @ evs \<and>
         calls_of evs = (if a < m then [Pause (delay_of b a)] else []) \<and>
         count_list evs CondEval = 0 \<and>
         world (backoff_delay d m b a s) =
           (if a < m then browser_pause d (delay_of b a) (world s) else world s)"
  unfolding backoff_delay_def pause_def logger_def by auto

lemma backoff_loop_exit:
  "\<not> a \<le> m \<Longrightarrow> backoff_loop d c m b a s = (Inl (not_met_error m), s)"
  by (simp add: backoff_loop.simps)

lemma backoff_loop_step:
  "a \<le> m \<Longrightarrow> backoff_try c a s = (t, s1) \<Longrightarrow>
     backoff_loop d c m b a s =
       (if t then (Inr (), s1)
        else backoff_loop d c m b (a + 1) (backoff_delay d m b a s1))"
  by (subst backoff_loop.simps) (simp split: bool.splits)

lemma backoff_loop_obs:
  "backoff_loop d c m b a s = (r, s') \<Longrightarrow>
     \<exists>evs. trace s' = trace s @ evs \<and>
       calls_of evs = sched_from b a (count_list evs CondEval) \<and>
       int (count_list evs CondEval) \<le> max 0 (m + 1 - a) \<and>
       (a \<le> m \<longrightarrow> 1 \<le> count_list evs CondEval) \<and>
       (r = Inr () \<or> r = Inl (not_met_error m)) \<and>
       (r = Inr () \<longrightarrow> (\<exists>w. fst (c w) = Inr True)) \<and>
       (r \<noteq> Inr () \<longrightarrow> int (count_list evs CondEval) = max 0 (m + 1 - a))"
proof (induction d c m b a s arbitrary: r s' rule: backoff_loop.induct)
  case (1 d c m b a s)
  show ?case
  proof (cases "a \<le> m")
    case False
    with "1.prems" show ?thesis
      by (auto simp: backoff_loop_exit)
  next
    case True
    obtain t s1 where t: "backoff_try c a s = (t, s1)"
      by (cases "backoff_try c a s")
    from backoff_try_obs [OF t] obtain e1 where e1:
      "trace s1 = trace s @ e1" "calls_of e1 = [CondEval]" "count_list e1 CondEval = 1"
      "t \<longleftrightarrow> fst (c (world s)) = Inr True"
      by blast
    show ?thesis
    proof (cases t)
      case True
      with \<open>a \<le> m\<close> t "1.prems" have "r = Inr ()" "s' = s1"
        by (simp_all add: backoff_loop_step)
      with e1 True \<open>a \<le> m\<close> show ?thesis
        by (intro exI [of _ e1]) auto
    next
      case False
      let ?s2 = "backoff_delay d m b a s1"
      from backoff_delay_obs [of d m b a s1] obtain e2 where e2:
        "trace ?s2 = trace s1 @ e2"
        "calls_of e2 = (if a < m then [Pause (delay_of b a)] else [])"
        "count_list e2 CondEval = 0"
        by blast
      from False \<open>a \<le> m\<close> t "1.prems"
      have rec: "backoff_loop d c m b (a + 1) ?s2 = (r, s')"
        by (simp add: backoff_loop_step)
      from "1.IH" [OF \<open>a \<le> m\<close> t [symmetric] _ rec] False
      obtain e3 where e3:
        "trace s' = trace ?s2 @ e3"
        "calls_of e3 = sched_from b (a + 1) (count_list e3 CondEval)"
        "int (count_list e3 CondEval) \<le> max 0 (m + 1 - (a + 1))"
        "a + 1 \<le> m \<longrightarrow> 1 \<le> count_list e3 CondEval"
        "r = Inr () \<or> r = Inl (not_met_error m)"
        "r = Inr () \<longrightarrow> (\<exists>w. fst (c w) = Inr True)"
        "r \<noteq> Inr () \<longrightarrow> int (count_list e3 CondEval) = max 0 (m + 1 - (a + 1))"
        by auto
      show ?thesis
      proof (cases "a < m")
        case True
        then obtain k where k: "count_list e3 CondEval = Suc k"
          using e3(4) by (cases "count_list e3 CondEval") auto
        with True e1 e2 e3 \<open>a \<le> m\<close> show ?thesis
          by (intro exI [of _ "e1 @ e2 @ e3"])
             (auto simp: calls_of_append count_list_append)
      next
        case False
        with \<open>a \<le> m\<close> have "a = m" by simp
        with e3(3) have "count_list e3 CondEval = 0" by simp
        with \<open>a = m\<close> e1 e2 e3 show ?thesis
          by (intro exI [of _ "e1 @ e2 @ e3"])
             (auto simp: calls_of_append count_list_append)
      qed
    qed
  qed
qed

lemma delay_of_int: "delay_of b (int a) = b * 2 ^ (a - 1)"
  by (cases a) (simp_all add: delay_of_def)

lemma sched_from_eq:
  "(sched_from b (int a) (Suc n) :: 'el event list) =
     CondEval # concat (map (\<lambda>k. [Pause (b * 2 ^ (k - 1)), CondEval]) [a..<a + n])"
proof (induction n arbitrary: a)
  case 0
  show ?case by simp
next
  case (Suc n)
  have "(sched_from b (int a) (Suc (Suc n)) :: 'el event list)
          = CondEval # Pause (b * 2 ^ (a - 1)) # sched_from b (int (Suc a)) (Suc n)"
    by (simp add: delay_of_int add.commute)
  also have "(sched_from b (int (Suc a)) (Suc n) :: 'el event list)
          = CondEval # concat (map (\<lambda>k. [Pause (b * 2 ^ (k - 1)), CondEval]) [Suc a..<Suc a + n])"
    by (rule Suc.IH)
  finally have step: "(sched_from b (int a) (Suc (Suc n)) :: 'el event list)
          = CondEval # Pause (b * 2 ^ (a - 1)) # CondEval #
              concat (map (\<lambda>k. [Pause (b * 2 ^ (k - 1)), CondEval]) [Suc a..<Suc a + n])" .
  have "[a..<a + Suc n] = a # [Suc a..<Suc a + n]"
    by (simp add: upt_conv_Cons)
  with step show ?case
    by simp
qed

lemma sched_from_schedule: "sched_from b 1 n = backoff_schedule b n"
proof (cases n)
  case 0
  then show ?thesis by (simp add: backoff_schedule_def)
next
  case (Suc k)
  with sched_from_eq [of b 1 k] show ?thesis
    by (simp add: backoff_schedule_def)
qed

subsection \<open>The delays of the backoff\<close>

lemma pauses_of_calls_of: "pauses_of (calls_of evs) = pauses_of evs"
  by (induction evs rule: calls_of.induct) simp_all

lemma pauses_of_rounds:
  "pauses_of (concat (map (\<lambda>k. [Pause (g k), CondEval]) ks)) = map g ks"
  by (induction ks) simp_all

lemma pauses_of_backoff_schedule:
  "pauses_of (backoff_schedule b n) = map (\<lambda>k. b * 2 ^ (k - 1)) [1..<n]"
  by (simp add: backoff_schedule_def pauses_of_rounds)

text \<open>What one call of \<open>waitWithBackoff\<close> emits and returns.\<close>

lemma waitWithBackoff_obs:
  assumes "waitWithBackoff d c m b s = (r, s')"
  shows "calls_of (emitted s s') = backoff_schedule b (count_list (emitted s s') CondEval) \<and>
         int (count_list (emitted s s') CondEval) \<le> max 0 m \<and>
         (0 < m \<longrightarrow> 1 \<le> count_list (emitted s s') CondEval) \<and>
         (r = Inr () \<or> r = Inl (not_met_error m)) \<and>
         (r = Inr () \<longrightarrow> (\<exists>w. fst (c w) = Inr True)) \<and>
         (r \<noteq> Inr () \<longrightarrow> count_list (emitted s s') CondEval = nat m)"
proof -
  let ?s0 = "logger LvDebug
               (''Waiting with exponential backoff, max attempts: '' @ show_int m) s"
  from assms have "backoff_loop d c m b 1 ?s0 = (r, s')"
    by (simp add: waitWithBackoff_def)
  from backoff_loop_obs [OF this] obtain evs where evs:
    "trace s' = trace ?s0 @ evs"
    "calls_of evs = sched_from b 1 (count_list evs CondEval)"
    "int (count_list evs CondEval) \<le> max 0 (m + 1 - 1)"
    "1 \<le> m \<longrightarrow> 1 \<le> count_list evs CondEval"
    "r = Inr () \<or> r = Inl (not_met_error m)"
    "r = Inr () \<longrightarrow> (\<exists>w. fst (c w) = Inr True)"
    "r \<noteq> Inr () \<longrightarrow> int (count_list evs CondEval) = max 0 (m + 1 - 1)"
    by blast
  from evs(1) have em: "emitted s s' =
      Log LvDebug (''Waiting with exponential backoff, max attempts: '' @ show_int m) # evs"
    by (simp add: emitted_def logger_trace)
  from evs(7) have "r \<noteq> Inr () \<longrightarrow> count_list evs CondEval = nat m"
    by auto
  with evs em show ?thesis
    by (simp add: sched_from_schedule)
qed

lemma backoff_loop_fails:
  "\<forall>j<nat (m + 1 - a). fst (c (world_after d c b a (world s) j)) \<noteq> Inr True \<Longrightarrow>
     fst (backoff_loop d c m b a s) = Inl (not_met_error m)"
proof (induction d c m b a s rule: backoff_loop.induct)
  case (1 d c m b a s)
  show ?case
  proof (cases "a \<le> m")
    case False
    then show ?thesis by (simp add: backoff_loop_exit)
  next
    case True
    obtain t s1 where t: "backoff_try c a s = (t, s1)"
      by (cases "backoff_try c a s")
    from backoff_try_obs [OF t] have s1: "world s1 = snd (c (world s))"
      and tt: "t \<longleftrightarrow> fst (c (world s)) = Inr True"
      by blast+
    from True have "0 < nat (m + 1 - a)" by simp
    with "1.prems" have "fst (c (world_after d c b a (world s) 0)) \<noteq> Inr True"
      by blast
    with tt have "\<not> t" by simp
    let ?s2 = "backoff_delay d m b a s1"
    have rest: "\<forall>j<nat (m + 1 - (a + 1)). fst (c (world_after d c b (a + 1) (world ?s2) j)) \<noteq> Inr True"
    proof (intro allI impI)
      fix j assume j: "j < nat (m + 1 - (a + 1))"
      then have "a < m" by simp
      with backoff_delay_obs [of d m b a s1]
      have w2: "world ?s2 = browser_pause d (delay_of b a) (world s1)"
        by auto
      from j have "Suc j < nat (m + 1 - a)" by simp
      with "1.prems" have "fst (c (world_after d c b a (world s) (Suc j))) \<noteq> Inr True"
        by blast
      with w2 s1 show "fst (c (world_after d c b (a + 1) (world ?s2) j)) \<noteq> Inr True"
        by simp
    qed
    from \<open>\<not> t\<close> have "t = False" by simp
    from "1.IH" [OF True t [symmetric] this rest]
    have "fst (backoff_loop d c m b (a + 1) ?s2) = Inl (not_met_error m)" .
    moreover from backoff_loop_step [OF True t] \<open>\<not> t\<close>
    have "backoff_loop d c m b a s = backoff_loop d c m b (a + 1) ?s2"
      by simp
    ultimately show ?thesis
      by simp
  qed
qed


lemma world_logger [simp]: "world (logger lv msg s) = world s"
  by (simp add: logger_def)

lemma waitWithBackoff_fails:
  "\<forall>j<nat m. fst (c (world_after d c b 1 (world s) j)) \<noteq> Inr True \<Longrightarrow>
     fst (waitWithBackoff d c m b s) = Inl (not_met_error m)"
  unfolding waitWithBackoff_def
  by (rule backoff_loop_fails) simp

lemma waitWithBackoff_run:
  "calls_of (emitted s (snd (waitWithBackoff d c m b s))) =
     backoff_schedule b (count_list (emitted s (snd (waitWithBackoff d c m b s))) CondEval) \<and>
   pauses_of (emitted s (snd (waitWithBackoff d c m b s))) =
     map (\<lambda>k. b * 2 ^ (k - 1))
       [1..<count_list (emitted s (snd (waitWithBackoff d c m b s))) CondEval] \<and>
   int (count_list (emitted s (snd (waitWithBackoff d c m b s))) CondEval) \<le> max 0 m \<and>
   ((\<forall>j<nat m. fst (c (world_after d c b 1 (world s) j)) \<noteq> Inr True) \<longrightarrow>
      count_list (emitted s (snd (waitWithBackoff d c m b s))) CondEval = nat m)"
proof -
  obtain r s' where run: "waitWithBackoff d c m b s = (r, s')"
    by (cases "waitWithBackoff d c m b s")
  note obs = waitWithBackoff_obs [OF run]
  from obs have "calls_of (emitted s s') =
      backoff_schedule b (count_list (emitted s s') CondEval)"
    by simp
  from arg_cong [OF this, of pauses_of] have "pauses_of (emitted s s') =
      map (\<lambda>k. b * 2 ^ (k - 1)) [1..<count_list (emitted s s') CondEval]"
    by (simp add: pauses_of_calls_of pauses_of_backoff_schedule)
  moreover have "count_list (emitted s s') CondEval = nat m"
    if "\<forall>j<nat m. fst (c (world_after d c b 1 (world s) j)) \<noteq> Inr True"
  proof -
    from waitWithBackoff_fails [OF that] run have "r \<noteq> Inr ()"
      by auto
    with obs show ?thesis by blast
  qed
  ultimately show ?thesis
    using obs run by simp
qed

text \<open>
  C1. In every run of \<open>waitWithBackoff\<close> with \<open>n\<close> evaluations of the condition, the
  evaluations alternate with the pauses, the pause after evaluation \<open>k\<close> (for
  \<open>1 \<le> k < n\<close>) lasts \<open>baseDelay * 2^(k-1)\<close> ms, and nothing follows the last
  evaluation. There are at most \<open>maxAttempts\<close> evaluations, and exactly that many when
  none of them returns true; with \<open>baseDelay = 1000\<close> and \<open>maxAttempts = 5\<close> the
  pauses are then 1000, 2000, 4000 and 8000 ms.
\<close>

theorem backoff_delays:
  "(let evs = emitted s (snd (waitWithBackoff d c m b s)); n = count_list evs CondEval in
      calls_of evs = backoff_schedule b n \<and>
      pauses_of evs = map (\<lambda>k. b * 2 ^ (k - 1)) [1..<n] \<and>
      int n \<le> max 0 m \<and>
      ((\<forall>j<nat m. fst (c (world_after d c b 1 (world s) j)) \<noteq> Inr True) \<longrightarrow> n = nat m)) \<and>
   ((\<forall>j<5. fst (c (world_after d c 1000 1 (world s) j)) \<noteq> Inr True) \<longrightarrow>
      pauses_of (emitted s (snd (waitWithBackoff d c 5 1000 s))) = [1000, 2000, 4000, 8000])"
proof -
  have five: "map (\<lambda>k. (1000::int) * 2 ^ (k - 1)) [1..<5] = [1000, 2000, 4000, 8000]"
    by (simp add: upt_conv_Cons)
  from waitWithBackoff_run [of s d c 5 1000] five
  have "(\<forall>j<5. fst (c (world_after d c 1000 1 (world s) j)) \<noteq> Inr True) \<longrightarrow>
      pauses_of (emitted s (snd (waitWithBackoff d c 5 1000 s))) = [1000, 2000, 4000, 8000]"
    by auto
  with waitWithBackoff_run [of s d c m b] show ?thesis
    by (simp add: Let_def)
qed

lemma browser_pause_scripted: "browser_pause scripted_driver ms w = w"
  by (simp add: scripted_driver_def)

lemma world_start [simp]: "world (start w) = w"
  by (simp add: start_def)

lemma scripted_condition_snd: "snd (scripted_condition w) = tl w"
  by (cases w) (simp_all add: scripted_condition_def)

lemma world_after_scripted:
  "world_after scripted_driver scripted_condition b a w j = drop j w"
proof (induction j arbitrary: a w)
  case 0
  show ?case by simp
next
  case (Suc j)
  show ?case
    by (simp add: Suc browser_pause_scripted scripted_condition_snd drop_Suc)
qed

lemma scripted_condition_not_true:
  "Inr True \<notin> set w \<Longrightarrow> fst (scripted_condition (drop j w)) \<noteq> Inr True"
proof (cases "drop j w")
  case Nil
  then show ?thesis by (simp add: scripted_condition_def)
next
  case (Cons x r)
  assume "Inr True \<notin> set w"
  moreover from Cons have "x \<in> set (drop j w)" by simp
  then have "x \<in> set w" by (rule in_set_dropD)
  ultimately show ?thesis
    using Cons by (auto simp: scripted_condition_def)
qed

theorem backoff_delays_witness:
  "calls_of (emitted (start [Inl (new_Error ''stale''), Inr False])
       (snd (waitWithBackoff scripted_driver scripted_condition 3 500
              (start [Inl (new_Error ''stale''), Inr False]))))
     = [CondEval, Pause 500, CondEval, Pause 1000, CondEval] \<and>
   pauses_of (emitted (start [Inl (new_Error ''stale''), Inr False])
       (snd (waitWithBackoff scripted_driver scripted_condition 5 1000
              (start [Inl (new_Error ''stale''), Inr False]))))
     = [1000, 2000, 4000, 8000]"
proof -
  let ?w = "[Inl (new_Error ''stale''), Inr False]"
  have never: "fst (scripted_condition
      (world_after scripted_driver scripted_condition b 1 (world (start ?w)) j)) \<noteq> Inr True"
    for b j
    unfolding world_after_scripted world_start
    by (rule scripted_condition_not_true) simp
  have sched: "backoff_schedule 500 (nat 3) = [CondEval, Pause 500, CondEval, Pause 1000, CondEval]"
    by (simp add: backoff_schedule_def upt_conv_Cons)
  from backoff_delays [of "start ?w" scripted_driver scripted_condition 3 500] never sched
  show ?thesis
    by (simp add: Let_def)
qed

subsection \<open>Exhausting the attempts\<close>




subsection \<open>The first true evaluation\<close>



subsection \<open>Two runs of the backoff loop side by side\<close>

lemma backoff_try_trace: "\<exists>evs. trace (snd (backoff_try c a s)) = trace s @ evs"
  using backoff_try_obs [of c a s "fst (backoff_try c a s)" "snd (backoff_try c a s)"]
  by auto

lemma backoff_delay_trace: "\<exists>evs. trace (backoff_delay d m b a s) = trace s @ evs"
  using backoff_delay_obs [of d m b a s] by blast

lemma backoff_loop_trace: "\<exists>evs. trace (snd (backoff_loop d c m b a s)) = trace s @ evs"
  using backoff_loop_obs [of d c m b a s "fst (backoff_loop d c m b a s)"
      "snd (backoff_loop d c m b a s)"]
  by auto

text \<open>
  Two conditions that agree on the next world and on whether they return true, run from
  states with the same world: the \<open>try\<close> statement and the delay agree on everything
  but the log, and on the log too when the conditions are the same.
\<close>

lemma backoff_try_rel:
  assumes "\<forall>w. snd (c' w) = snd (c w) \<and> (fst (c' w) = Inr True \<longleftrightarrow> fst (c w) = Inr True)"
    and "world s2 = world s"
  shows "fst (backoff_try c' a s2) = fst (backoff_try c a s) \<and>
         world (snd (backoff_try c' a s2)) = world (snd (backoff_try c a s)) \<and>
         calls_of (emitted s2 (snd (backoff_try c' a s2)))
           = calls_of (emitted s (snd (backoff_try c a s))) \<and>
         (c' = c \<longrightarrow> emitted s2 (snd (backoff_try c' a s2)) = emitted s (snd (backoff_try c a s)))"
proof -
  from assms have w: "snd (c' (world s2)) = snd (c (world s))"
    and t: "fst (c' (world s2)) = Inr True \<longleftrightarrow> fst (c (world s)) = Inr True"
    by simp_all
  obtain r1 w1 where c1: "c (world s) = (r1, w1)" by (cases "c (world s)")
  obtain r2 w2 where c2: "c' (world s2) = (r2, w2)" by (cases "c' (world s2)")
  from w t c1 c2 have "w2 = w1" and "r2 = Inr True \<longleftrightarrow> r1 = Inr True"
    by simp_all
  with c1 c2 assms(2) show ?thesis
    by (cases r1; cases r2)
       (auto simp: backoff_try_def call_def logger_def emitted_def)
qed

lemma backoff_delay_rel:
  assumes "world s2 = world s"
  shows "world (backoff_delay d m b a s2) = world (backoff_delay d m b a s) \<and>
         emitted s2 (backoff_delay d m b a s2) = emitted s (backoff_delay d m b a s)"
  using assms by (simp add: backoff_delay_def pause_def logger_def emitted_def)

lemma backoff_loop_rel:
  "\<forall>w. snd (c' w) = snd (c w) \<and> (fst (c' w) = Inr True \<longleftrightarrow> fst (c w) = Inr True) \<Longrightarrow>
   world s2 = world s \<Longrightarrow>
     fst (backoff_loop d c' m b a s2) = fst (backoff_loop d c m b a s) \<and>
     world (snd (backoff_loop d c' m b a s2)) = world (snd (backoff_loop d c m b a s)) \<and>
     calls_of (emitted s2 (snd (backoff_loop d c' m b a s2)))
       = calls_of (emitted s (snd (backoff_loop d c m b a s))) \<and>
     (c' = c \<longrightarrow> emitted s2 (snd (backoff_loop d c' m b a s2))
                   = emitted s (snd (backoff_loop d c m b a s)))"
proof (induction d c m b a s arbitrary: s2 rule: backoff_loop.induct)
  case (1 d c m b a s)
  show ?case
  proof (cases "a \<le> m")
    case False
    with "1.prems"(2) show ?thesis
      by (simp add: backoff_loop_exit emitted_def)
  next
    case True
    obtain t s1 where t: "backoff_try c a s = (t, s1)"
      by (cases "backoff_try c a s")
    obtain t' s1' where t': "backoff_try c' a s2 = (t', s1')"
      by (cases "backoff_try c' a s2")
    from backoff_try_rel [OF "1.prems"(1,2), of a] t t'
    have tt: "t' = t" and w1: "world s1' = world s1"
      and c1: "calls_of (emitted s2 s1') = calls_of (emitted s s1)"
      and f1: "c' = c \<longrightarrow> emitted s2 s1' = emitted s s1"
      by auto
    show ?thesis
    proof (cases t)
      case True
      with backoff_loop_step [OF \<open>a \<le> m\<close> t] backoff_loop_step [OF \<open>a \<le> m\<close> t'] tt
      have ends: "backoff_loop d c m b a s = (Inr (), s1)"
        "backoff_loop d c' m b a s2 = (Inr (), s1')"
        by simp_all
      from w1 c1 f1 show ?thesis
        unfolding ends by simp
    next
      case False
      let ?q = "backoff_delay d m b a s1" and ?q' = "backoff_delay d m b a s1'"
      let ?r = "backoff_loop d c m b (a + 1) ?q" and ?r' = "backoff_loop d c' m b (a + 1) ?q'"
      from backoff_loop_step [OF \<open>a \<le> m\<close> t] backoff_loop_step [OF \<open>a \<le> m\<close> t'] tt False
      have whole: "backoff_loop d c m b a s = ?r" "backoff_loop d c' m b a s2 = ?r'"
        by simp_all
      from backoff_delay_rel [OF w1, of d m b a]
      have w2: "world ?q' = world ?q" and f2: "emitted s1' ?q' = emitted s1 ?q"
        by simp_all
      from False have "t = False" by simp
      note IH = "1.IH" [OF \<open>a \<le> m\<close> t [symmetric] this "1.prems"(1) w2]
      from backoff_try_trace [of c a s] t obtain e1 where e1: "trace s1 = trace s @ e1"
        by auto
      from backoff_try_trace [of c' a s2] t' obtain e1' where e1': "trace s1' = trace s2 @ e1'"
        by auto
      from backoff_delay_trace [of d m b a s1] obtain e2 where e2: "trace ?q = trace s1 @ e2"
        by blast
      from backoff_delay_trace [of d m b a s1'] obtain e2' where e2': "trace ?q' = trace s1' @ e2'"
        by blast
      from backoff_loop_trace [of d c m b "a + 1" ?q] obtain e3
        where e3: "trace (snd ?r) = trace ?q @ e3" by blast
      from backoff_loop_trace [of d c' m b "a + 1" ?q'] obtain e3'
        where e3': "trace (snd ?r') = trace ?q' @ e3'" by blast
      have em: "emitted s (snd ?r) = emitted s s1 @ emitted s1 ?q @ emitted ?q (snd ?r)"
        using e1 e2 e3 by (simp add: emitted_def)
      have em': "emitted s2 (snd ?r') = emitted s2 s1' @ emitted s1' ?q' @ emitted ?q' (snd ?r')"
        using e1' e2' e3' by (simp add: emitted_def)
      from IH c1 f1 f2 em em' show ?thesis
        unfolding whole by (auto simp: calls_of_append)
    qed
  qed
qed

lemma waitWithBackoff_rel:
  assumes "\<forall>w. snd (c' w) = snd (c w) \<and> (fst (c' w) = Inr True \<longleftrightarrow> fst (c w) = Inr True)"
    and "world s2 = world s"
  shows "fst (waitWithBackoff d c' m b s2) = fst (waitWithBackoff d c m b s) \<and>
     world (snd (waitWithBackoff d c' m b s2)) = world (snd (waitWithBackoff d c m b s)) \<and>
     calls_of (emitted s2 (snd (waitWithBackoff d c' m b s2)))
       = calls_of (emitted s (snd (waitWithBackoff d c m b s))) \<and>
     (c' = c \<longrightarrow> emitted s2 (snd (waitWithBackoff d c' m b s2))
                   = emitted s (snd (waitWithBackoff d c m b s)))"
proof -
  let ?msg = "''Waiting with exponential backoff, max attempts: '' @ show_int m"
  let ?q = "logger LvDebug ?msg s" and ?q' = "logger LvDebug ?msg s2"
  let ?r = "backoff_loop d c m b 1 ?q" and ?r' = "backoff_loop d c' m b 1 ?q'"
  from assms(2) have "world ?q' = world ?q" by simp
  note rel = backoff_loop_rel [OF assms(1) this, of d m b 1]
  from backoff_loop_trace [of d c m b 1 ?q] obtain e where "trace (snd ?r) = trace ?q @ e"
    by blast
  then have em: "emitted s (snd ?r) = Log LvDebug ?msg # emitted ?q (snd ?r)"
    by (simp add: emitted_def logger_trace)
  from backoff_loop_trace [of d c' m b 1 ?q'] obtain e' where "trace (snd ?r') = trace ?q' @ e'"
    by blast
  then have em': "emitted s2 (snd ?r') = Log LvDebug ?msg # emitted ?q' (snd ?r')"
    by (simp add: emitted_def logger_trace)
  from rel em em' show ?thesis
    unfolding waitWithBackoff_def by auto
qed

lemma waitWithBackoff_already_true:
  assumes "1 \<le> m" and "fst (c (world s)) = Inr True"
  shows "waitWithBackoff d c m b s =
     (Inr (), \<lparr>world = snd (c (world s)),
               trace = trace s @
                 [Log LvDebug (''Waiting with exponential backoff, max attempts: '' @ show_int m),
                  CondEval]\<rparr>)"
proof -
  let ?q = "logger LvDebug
      (''Waiting with exponential backoff, max attempts: '' @ show_int m) s"
  let ?s1 = "\<lparr>world = snd (c (world s)), trace = trace ?q @ [CondEval]\<rparr>"
  from assms(2) have "backoff_try c 1 ?q = (True, ?s1)"
    by (cases "c (world s)") (simp add: backoff_try_def call_def)
  from backoff_loop_step [OF assms(1) this, of d b] show ?thesis
    by (simp add: waitWithBackoff_def logger_trace)
qed

subsection \<open>The attempts of safeClick\<close>

lemma waitForClickable_obs:
  "waitForClickable d selector t s = (r, s') \<Longrightarrow>
     \<exists>evs. trace s' = trace s @ evs \<and> (\<forall>lv. logs_of lv evs = []) \<and> pauses_of evs = [] \<and>
       count_list evs (Resolve selector) = 1 \<and> set (wait_timeouts evs) \<subseteq> {t}"
  unfolding waitForClickable_def call_def
  by (auto split: prod.splits sum.splits)

lemma safeClick_try_obs:
  assumes "safeClick_try d selector s = (r, s')"
  shows "\<exists>evs. trace s' = trace s @ evs \<and> pauses_of evs = [] \<and>
       count_list evs (Resolve selector) = 1 \<and>
       set (wait_timeouts evs) \<subseteq> {default_timeout} \<and>
       (\<forall>lv. logs_of lv evs =
          (if lv = LvInfo \<and> \<not> isl r then [''Successfully clicked element: '' @ selector] else []))"
proof -
  obtain r1 s1 where w: "waitForClickable d selector default_timeout s = (r1, s1)"
    by (cases "waitForClickable d selector default_timeout s")
  from waitForClickable_obs [OF w] obtain e1 where e1:
    "trace s1 = trace s @ e1" "\<forall>lv. logs_of lv e1 = []" "pauses_of e1 = []"
    "count_list e1 (Resolve selector) = 1" "set (wait_timeouts e1) \<subseteq> {default_timeout}"
    by blast
  show ?thesis
  proof (cases r1)
    case (Inl e)
    with assms w e1 show ?thesis
      by (auto simp: safeClick_try_def)
  next
    case (Inr el)
    obtain r2 s2 where c: "call (Click el) (el_click d el) s1 = (r2, s2)"
      by (cases "call (Click el) (el_click d el) s1")
    from call_trace [OF c] have t2: "trace s2 = trace s1 @ [Click el]" .
    show ?thesis
    proof (cases r2)
      case (Inl e)
      with assms w Inr c have "r = Inl e" "s' = s2"
        by (simp_all add: safeClick_try_def)
      with e1 t2 show ?thesis
        by (intro exI [of _ "e1 @ [Click el]"])
           (simp add: logs_of_append pauses_of_append wait_timeouts_append count_list_append)
    next
      case (Inr u)
      with assms w \<open>r1 = Inr el\<close> c have "r = Inr ()"
        "s' = logger LvInfo (''Successfully clicked element: '' @ selector) s2"
        by (simp_all add: safeClick_try_def)
      with e1 t2 show ?thesis
        by (intro exI [of _ "e1 @ [Click el, Log LvInfo (''Successfully clicked element: '' @ selector)]"])
           (simp add: logs_of_append pauses_of_append wait_timeouts_append count_list_append
              logger_trace)
    qed
  qed
qed

lemma safeClick_loop_exit:
  "\<not> i < n \<Longrightarrow> safeClick_loop d selector n i s = (Inr (), s)"
  by (simp add: safeClick_loop.simps)

lemma safeClick_loop_ok:
  "i < n \<Longrightarrow> safeClick_try d selector s = (Inr u, s1) \<Longrightarrow>
     safeClick_loop d selector n i s = (Inr (), s1)"
  by (subst safeClick_loop.simps) simp

lemma safeClick_loop_last:
  "i < n \<Longrightarrow> safeClick_try d selector s = (Inl e, s1) \<Longrightarrow> i = n - 1 \<Longrightarrow>
     safeClick_loop d selector n i s = (Inl e, logger LvWarn (click_failed_msg i selector e) s1)"
  by (subst safeClick_loop.simps) simp

lemma safeClick_loop_retry:
  "i < n \<Longrightarrow> safeClick_try d selector s = (Inl e, s1) \<Longrightarrow> i \<noteq> n - 1 \<Longrightarrow>
     safeClick_loop d selector n i s =
       safeClick_loop d selector n (i + 1)
         (pause d 1000 (logger LvWarn (click_failed_msg i selector e) s1))"
  by (subst safeClick_loop.simps) simp

lemma safeClick_loop_obs:
  "safeClick_loop d selector n i s = (r, s') \<Longrightarrow>
     \<exists>evs. trace s' = trace s @ evs \<and>
       int (count_list evs (Resolve selector)) \<le> max 0 (n - i) \<and>
       (i < n \<longrightarrow> 1 \<le> count_list evs (Resolve selector)) \<and>
       pauses_of evs = replicate (count_list evs (Resolve selector) - 1) 1000 \<and>
       set (wait_timeouts evs) \<subseteq> {default_timeout} \<and>
       (r = Inr () \<longrightarrow>
          length (logs_of LvWarn evs) = count_list evs (Resolve selector) - 1) \<and>
       (\<forall>e. r = Inl e \<longrightarrow>
          int (count_list evs (Resolve selector)) = n - i \<and>
          length (logs_of LvWarn evs) = count_list evs (Resolve selector) \<and>
          (\<exists>q q'. safeClick_try d selector q = (Inl e, q') \<and>
             s' = logger LvWarn (click_failed_msg (n - 1) selector e) q'))"
proof (induction "nat (n - i)" arbitrary: i s)
  case 0
  then have "\<not> i < n" by simp
  with "0.prems" have "r = Inr ()" "s' = s"
    by (simp_all add: safeClick_loop_exit)
  with \<open>\<not> i < n\<close> show ?case
    by (intro exI [of _ "[]"]) simp
next
  case (Suc k)
  then have "i < n" by simp
  obtain t s1 where t: "safeClick_try d selector s = (t, s1)"
    by (cases "safeClick_try d selector s")
  from safeClick_try_obs [OF t] obtain e1 where e1:
    "trace s1 = trace s @ e1" "pauses_of e1 = []" "count_list e1 (Resolve selector) = 1"
    "set (wait_timeouts e1) \<subseteq> {default_timeout}" "logs_of LvWarn e1 = []"
    by auto
  show ?case
  proof (cases t)
    case (Inr u)
    with safeClick_loop_ok [OF \<open>i < n\<close>, of d selector s u s1] t Suc.prems
    have "r = Inr ()" "s' = s1"
      by simp_all
    with e1 \<open>i < n\<close> show ?thesis
      by (intro exI [of _ e1]) simp
  next
    case (Inl e)
    let ?w = "Log LvWarn (click_failed_msg i selector e)"
    show ?thesis
    proof (cases "i = n - 1")
      case True
      with safeClick_loop_last [OF \<open>i < n\<close>, of d selector s e s1] t Inl Suc.prems
      have r: "r = Inl e" and s': "s' = logger LvWarn (click_failed_msg i selector e) s1"
        by simp_all
      from s' e1 have "trace s' = trace s @ (e1 @ [?w])"
        by (simp add: logger_trace)
      moreover from t Inl True s'
      have "\<exists>q q'. safeClick_try d selector q = (Inl e, q') \<and>
             s' = logger LvWarn (click_failed_msg (n - 1) selector e) q'"
        by auto
      ultimately show ?thesis
        using e1 r True
        by (intro exI [of _ "e1 @ [?w]"])
           (simp add: logs_of_append pauses_of_append wait_timeouts_append count_list_append)
    next
      case False
      let ?q = "pause d 1000 (logger LvWarn (click_failed_msg i selector e) s1)"
      from safeClick_loop_retry [OF \<open>i < n\<close>, of d selector s e s1] t Inl False Suc.prems
      have rec: "safeClick_loop d selector n (i + 1) ?q = (r, s')"
        by simp
      from Suc.hyps(2) have "k = nat (n - (i + 1))" by simp
      from Suc.hyps(1) [OF this rec] obtain e3 where e3:
        "trace s' = trace ?q @ e3"
        "int (count_list e3 (Resolve selector)) \<le> max 0 (n - (i + 1))"
        "i + 1 < n \<longrightarrow> 1 \<le> count_list e3 (Resolve selector)"
        "pauses_of e3 = replicate (count_list e3 (Resolve selector) - 1) 1000"
        "set (wait_timeouts e3) \<subseteq> {default_timeout}"
        "r = Inr () \<longrightarrow> length (logs_of LvWarn e3) = count_list e3 (Resolve selector) - 1"
        "\<forall>e. r = Inl e \<longrightarrow>
          int (count_list e3 (Resolve selector)) = n - (i + 1) \<and>
          length (logs_of LvWarn e3) = count_list e3 (Resolve selector) \<and>
          (\<exists>q q'. safeClick_try d selector q = (Inl e, q') \<and>
             s' = logger LvWarn (click_failed_msg (n - 1) selector e) q')"
        by blast
      from False \<open>i < n\<close> have "i + 1 < n" by simp
      with e3(3) obtain c where c: "count_list e3 (Resolve selector) = Suc c"
        by (cases "count_list e3 (Resolve selector)") auto
      from e3(1) e1 have tr: "trace s' = trace s @ (e1 @ [?w, Pause 1000] @ e3)"
        by (simp add: pause_trace logger_trace)
      from e1 e3 c \<open>i + 1 < n\<close> show ?thesis
        by (intro exI [of _ "e1 @ [?w, Pause 1000] @ e3"] conjI tr)
           (auto simp: logs_of_append pauses_of_append wait_timeouts_append count_list_append)
    qed
  qed
qed

lemma safeType_obs:
  "safeType d selector text s = (r, s') \<Longrightarrow>
     \<exists>evs. trace s' = trace s @ evs \<and> pauses_of evs = [] \<and> logs_of LvWarn evs = [] \<and>
       count_list evs (Resolve selector) = 1 \<and>
       set (wait_timeouts evs) \<subseteq> {default_timeout}"
  unfolding safeType_def waitForVisible_def call_def logger_def
  by (auto split: prod.splits sum.splits)

lemma safeClick_try_logs:
  assumes "safeClick_try d selector s = (r, s')"
  shows "logs_of lv (emitted s s') =
     (if lv = LvInfo \<and> \<not> isl r then [''Successfully clicked element: '' @ selector] else [])"
proof -
  from safeClick_try_obs [OF assms] obtain evs where "trace s' = trace s @ evs"
    "\<forall>lv. logs_of lv evs =
       (if lv = LvInfo \<and> \<not> isl r then [''Successfully clicked element: '' @ selector] else [])"
    by blast
  then show ?thesis
    by (simp add: emitted_def)
qed

lemma safeClick_try_trace:
  "safeClick_try d selector s = (r, s') \<Longrightarrow> \<exists>evs. trace s' = trace s @ evs"
  using safeClick_try_obs by blast

text \<open>
  C3. \<open>safeClick\<close> with \<open>retries = 3\<close>, when the first and the second attempt fail and
  the third succeeds, returns normally in the state the third attempt ends in; during
  the call it logs exactly two entries at warn level, one per failed attempt, and exactly
  one at info level, the success message.
\<close>

theorem safeClick_succeeds_on_third_attempt:
  assumes "safeClick_try d selector s = (Inl e1, s1)"
    and "safeClick_try d selector
           (pause d 1000 (logger LvWarn (click_failed_msg 0 selector e1) s1)) = (Inl e2, s2)"
    and "safeClick_try d selector
           (pause d 1000 (logger LvWarn (click_failed_msg 1 selector e2) s2)) = (Inr (), s3)"
  shows "safeClick d selector 3 s = (Inr (), s3) \<and>
         logs_of LvWarn (emitted s s3) =
           [click_failed_msg 0 selector e1, click_failed_msg 1 selector e2] \<and>
         logs_of LvInfo (emitted s s3) = [''Successfully clicked element: '' @ selector]"
proof -
  let ?q1 = "pause d 1000 (logger LvWarn (click_failed_msg 0 selector e1) s1)"
  let ?q2 = "pause d 1000 (logger LvWarn (click_failed_msg 1 selector e2) s2)"
  have "safeClick_loop d selector 3 0 s = safeClick_loop d selector 3 1 ?q1"
    using safeClick_loop_retry [OF _ assms(1), of 0 3] by simp
  also have "\<dots> = safeClick_loop d selector 3 2 ?q2"
    using safeClick_loop_retry [OF _ assms(2), of 1 3] by simp
  also have "\<dots> = (Inr (), s3)"
    by (rule safeClick_loop_ok [OF _ assms(3)]) simp
  finally have run: "safeClick d selector 3 s = (Inr (), s3)"
    by (simp add: safeClick_def)
  from safeClick_try_trace [OF assms(1)] obtain x1 where x1: "trace s1 = trace s @ x1"
    by blast
  from safeClick_try_trace [OF assms(2)] obtain x2 where x2: "trace s2 = trace ?q1 @ x2"
    by blast
  from safeClick_try_trace [OF assms(3)] obtain x3 where x3: "trace s3 = trace ?q2 @ x3"
    by blast
  from x1 x2 x3 have "trace s3 = trace s @
      (x1 @ [Log LvWarn (click_failed_msg 0 selector e1), Pause 1000] @
       x2 @ [Log LvWarn (click_failed_msg 1 selector e2), Pause 1000] @ x3)"
    by (simp add: pause_trace logger_trace)
  from emitted_append [OF this] have em: "emitted s s3 =
      x1 @ [Log LvWarn (click_failed_msg 0 selector e1), Pause 1000] @
      x2 @ [Log LvWarn (click_failed_msg 1 selector e2), Pause 1000] @ x3" .
  have l1: "logs_of lv x1 = []" for lv
    using safeClick_try_logs [OF assms(1), of lv] emitted_append [OF x1] by simp
  have l2: "logs_of lv x2 = []" for lv
    using safeClick_try_logs [OF assms(2), of lv] emitted_append [OF x2] by simp
  have l3: "logs_of lv x3 =
      (if lv = LvInfo then [''Successfully clicked element: '' @ selector] else [])" for lv
    using safeClick_try_logs [OF assms(3), of lv] emitted_append [OF x3] by simp
  from run show ?thesis
    unfolding em logs_of_append
    by (simp add: l1 l2 l3)
qed

text \<open>
  C2. \<open>safeClick\<close> with \<open>retries = 3\<close>, when all three attempts fail, raises the error
  of the third attempt, as it was thrown: the errors of the first two attempts are
  logged at warn level and not raised. The attempt number is part of each warn message
  and of nothing else; the three warn messages are all the call logs at that level.
\<close>

theorem safeClick_raises_last_error:
  assumes "safeClick_try d selector s = (Inl e1, s1)"
    and "safeClick_try d selector
           (pause d 1000 (logger LvWarn (click_failed_msg 0 selector e1) s1)) = (Inl e2, s2)"
    and "safeClick_try d selector
           (pause d 1000 (logger LvWarn (click_failed_msg 1 selector e2) s2)) = (Inl e3, s3)"
  shows "safeClick d selector 3 s =
           (Inl e3, logger LvWarn (click_failed_msg 2 selector e3) s3) \<and>
         logs_of LvWarn (emitted s (snd (safeClick d selector 3 s))) =
           [click_failed_msg 0 selector e1, click_failed_msg 1 selector e2,
            click_failed_msg 2 selector e3] \<and>
         click_failed_msg 2 selector e3 =
           ''Click attempt 3 failed for '' @ selector @ '': '' @ error_toString e3"
proof -
  let ?q1 = "pause d 1000 (logger LvWarn (click_failed_msg 0 selector e1) s1)"
  let ?q2 = "pause d 1000 (logger LvWarn (click_failed_msg 1 selector e2) s2)"
  let ?end = "logger LvWarn (click_failed_msg 2 selector e3) s3"
  have "safeClick_loop d selector 3 0 s = safeClick_loop d selector 3 1 ?q1"
    using safeClick_loop_retry [OF _ assms(1), of 0 3] by simp
  also have "\<dots> = safeClick_loop d selector 3 2 ?q2"
    using safeClick_loop_retry [OF _ assms(2), of 1 3] by simp
  also have "\<dots> = (Inl e3, ?end)"
    by (rule safeClick_loop_last [OF _ assms(3)]) simp_all
  finally have run: "safeClick d selector 3 s = (Inl e3, ?end)"
    by (simp add: safeClick_def)
  from safeClick_try_trace [OF assms(1)] obtain x1 where x1: "trace s1 = trace s @ x1"
    by blast
  from safeClick_try_trace [OF assms(2)] obtain x2 where x2: "trace s2 = trace ?q1 @ x2"
    by blast
  from safeClick_try_trace [OF assms(3)] obtain x3 where x3: "trace s3 = trace ?q2 @ x3"
    by blast
  from x1 x2 x3 have "trace ?end = trace s @
      (x1 @ [Log LvWarn (click_failed_msg 0 selector e1), Pause 1000] @
       x2 @ [Log LvWarn (click_failed_msg 1 selector e2), Pause 1000] @
       x3 @ [Log LvWarn (click_failed_msg 2 selector e3)])"
    by (simp add: pause_trace logger_trace)
  from emitted_append [OF this] have em: "emitted s ?end =
      x1 @ [Log LvWarn (click_failed_msg 0 selector e1), Pause 1000] @
      x2 @ [Log LvWarn (click_failed_msg 1 selector e2), Pause 1000] @
      x3 @ [Log LvWarn (click_failed_msg 2 selector e3)]" .
  have l1: "logs_of lv x1 = []" for lv
    using safeClick_try_logs [OF assms(1), of lv] emitted_append [OF x1] by simp
  have l2: "logs_of lv x2 = []" for lv
    using safeClick_try_logs [OF assms(2), of lv] emitted_append [OF x2] by simp
  have l3: "logs_of lv x3 = []" for lv
    using safeClick_try_logs [OF assms(3), of lv] emitted_append [OF x3] by simp
  have logs: "logs_of LvWarn (emitted s ?end) =
      [click_failed_msg 0 selector e1, click_failed_msg 1 selector e2,
       click_failed_msg 2 selector e3]"
    unfolding em logs_of_append by (simp add: l1 l2 l3)
  have "show_int (2 + 1) = ''3''"
    by (simp add: show_int_def show_nat.simps)
  then have msg: "click_failed_msg 2 selector e3 =
      ''Click attempt 3 failed for '' @ selector @ '': '' @ error_toString e3"
    by (simp add: click_failed_msg_def)
  from logs msg show ?thesis
    unfolding run snd_conv by (intro conjI refl)
qed

theorem safeClick_succeeds_on_third_attempt_witness:
  "fst (safeClick scripted_driver ''#buy'' 3
          (start [Inl (new_Error ''stale''), Inl (new_Error ''covered''), Inr True])) = Inr () \<and>
   logs_of LvWarn (emitted (start [Inl (new_Error ''stale''), Inl (new_Error ''covered''), Inr True])
       (snd (safeClick scripted_driver ''#buy'' 3
               (start [Inl (new_Error ''stale''), Inl (new_Error ''covered''), Inr True]))))
     = [''Click attempt 1 failed for #buy: Error: stale'',
        ''Click attempt 2 failed for #buy: Error: covered''] \<and>
   logs_of LvInfo (emitted (start [Inl (new_Error ''stale''), Inl (new_Error ''covered''), Inr True])
       (snd (safeClick scripted_driver ''#buy'' 3
               (start [Inl (new_Error ''stale''), Inl (new_Error ''covered''), Inr True]))))
     = [''Successfully clicked element: #buy'']"
proof -
  let ?s = "start [Inl (new_Error ''stale''), Inl (new_Error ''covered''), Inr True]"
  let ?s1 = "snd (safeClick_try scripted_driver ''#buy'' ?s)"
  let ?q1 = "pause scripted_driver 1000
      (logger LvWarn (click_failed_msg 0 ''#buy'' (new_Error ''stale'')) ?s1)"
  let ?s2 = "snd (safeClick_try scripted_driver ''#buy'' ?q1)"
  let ?q2 = "pause scripted_driver 1000
      (logger LvWarn (click_failed_msg 1 ''#buy'' (new_Error ''covered'')) ?s2)"
  let ?s3 = "snd (safeClick_try scripted_driver ''#buy'' ?q2)"
  have "fst (safeClick_try scripted_driver ''#buy'' ?s) = Inl (new_Error ''stale'')"
    by code_simp
  then have a1: "safeClick_try scripted_driver ''#buy'' ?s = (Inl (new_Error ''stale''), ?s1)"
    by (simp add: prod_eq_iff)
  have "fst (safeClick_try scripted_driver ''#buy'' ?q1) = Inl (new_Error ''covered'')"
    by code_simp
  then have a2: "safeClick_try scripted_driver ''#buy'' ?q1 = (Inl (new_Error ''covered''), ?s2)"
    by (simp add: prod_eq_iff)
  have "fst (safeClick_try scripted_driver ''#buy'' ?q2) = Inr ()"
    by code_simp
  then have a3: "safeClick_try scripted_driver ''#buy'' ?q2 = (Inr (), ?s3)"
    by (simp add: prod_eq_iff)
  have m1: "click_failed_msg 0 ''#buy'' (new_Error ''stale'')
      = ''Click attempt 1 failed for #buy: Error: stale''"
    and m2: "click_failed_msg 1 ''#buy'' (new_Error ''covered'')
      = ''Click attempt 2 failed for #buy: Error: covered''"
    by code_simp+
  note run = safeClick_succeeds_on_third_attempt [OF a1 a2 a3, unfolded m1 m2]
  from run [THEN conjunct1]
  have "fst (safeClick scripted_driver ''#buy'' 3 ?s) = Inr ()"
    and "snd (safeClick scripted_driver ''#buy'' 3 ?s) = ?s3"
    by (simp_all add: m1 m2)
  with run [THEN conjunct2] show ?thesis
    by (simp add: m1 m2)
qed

theorem safeClick_raises_last_error_witness:
  "fst (safeClick scripted_driver ''#buy'' 3
          (start [Inl (new_Error ''stale''), Inl (new_Error ''covered''),
                  Inl (new_Error ''detached'')])) = Inl (JsError ''Error'' ''detached'') \<and>
   logs_of LvWarn (emitted (start [Inl (new_Error ''stale''), Inl (new_Error ''covered''),
                                   Inl (new_Error ''detached'')])
       (snd (safeClick scripted_driver ''#buy'' 3
               (start [Inl (new_Error ''stale''), Inl (new_Error ''covered''),
                       Inl (new_Error ''detached'')]))))
     = [''Click attempt 1 failed for #buy: Error: stale'',
        ''Click attempt 2 failed for #buy: Error: covered'',
        ''Click attempt 3 failed for #buy: Error: detached'']"
proof -
  let ?s = "start [Inl (new_Error ''stale''), Inl (new_Error ''covered''),
                   Inl (new_Error ''detached'')]"
  let ?s1 = "snd (safeClick_try scripted_driver ''#buy'' ?s)"
  let ?q1 = "pause scripted_driver 1000
      (logger LvWarn (click_failed_msg 0 ''#buy'' (new_Error ''stale'')) ?s1)"
  let ?s2 = "snd (safeClick_try scripted_driver ''#buy'' ?q1)"
  let ?q2 = "pause scripted_driver 1000
      (logger LvWarn (click_failed_msg 1 ''#buy'' (new_Error ''covered'')) ?s2)"
  let ?s3 = "snd (safeClick_try scripted_driver ''#buy'' ?q2)"
  have "fst (safeClick_try scripted_driver ''#buy'' ?s) = Inl (new_Error ''stale'')"
    by code_simp
  then have a1: "safeClick_try scripted_driver ''#buy'' ?s = (Inl (new_Error ''stale''), ?s1)"
    by (simp add: prod_eq_iff)
  have "fst (safeClick_try scripted_driver ''#buy'' ?q1) = Inl (new_Error ''covered'')"
    by code_simp
  then have a2: "safeClick_try scripted_driver ''#buy'' ?q1 = (Inl (new_Error ''covered''), ?s2)"
    by (simp add: prod_eq_iff)
  have "fst (safeClick_try scripted_driver ''#buy'' ?q2) = Inl (new_Error ''detached'')"
    by code_simp
  then have a3: "safeClick_try scripted_driver ''#buy'' ?q2 = (Inl (new_Error ''detached''), ?s3)"
    by (simp add: prod_eq_iff)
  have m1: "click_failed_msg 0 ''#buy'' (new_Error ''stale'')
      = ''Click attempt 1 failed for #buy: Error: stale''"
    and m2: "click_failed_msg 1 ''#buy'' (new_Error ''covered'')
      = ''Click attempt 2 failed for #buy: Error: covered''"
    and m3: "click_failed_msg 2 ''#buy'' (new_Error ''detached'')
      = ''Click attempt 3 failed for #buy: Error: detached''"
    by code_simp+
  note run = safeClick_raises_last_error [OF a1 a2 a3, unfolded m1 m2 m3]
  from run [THEN conjunct1]
  have "fst (safeClick scripted_driver ''#buy'' 3 ?s) = Inl (new_Error ''detached'')"
    by simp
  with run [THEN conjunct2, THEN conjunct1] show ?thesis
    by (simp add: new_Error_def)
qed

text \<open>
  C2, the part that fails: what \<open>safeClick\<close> raises is the error the last attempt threw,
  not an error of its own that carries the attempt count. With three attempts and with
  five, a run whose last attempt throws the same error raises the same value.
\<close>

theorem safeClick_raised_error_counterexample:
  "fst (safeClick scripted_driver ''#buy'' 3
          (start [Inl (new_Error ''stale''), Inl (new_Error ''covered''),
                  Inl (new_Error ''detached'')])) = Inl (JsError ''Error'' ''detached'') \<and>
   fst (safeClick scripted_driver ''#buy'' 5
          (start [Inl (new_Error ''stale''), Inl (new_Error ''covered''),
                  Inl (new_Error ''stale''), Inl (new_Error ''covered''),
                  Inl (new_Error ''detached'')])) = Inl (JsError ''Error'' ''detached'')"
  by code_simp

subsection \<open>A thrown value with no string form\<close>

lemma backoff_try_any_errors:
  "backoff_try_any (throws_errors c) a s =
     (Inr (fst (backoff_try c a s)), snd (backoff_try c a s))"
  by (cases "c (world s)")
     (auto simp: backoff_try_any_def backoff_try_def evaluate_def call_def throws_errors_def
        template_string_def split: sum.splits)

text \<open>
  On conditions that throw \<open>Error\<close> objects the two pollers are the same function.
\<close>

lemma backoff_loop_any_errors:
  "backoff_loop_any d (throws_errors c) m b a s = backoff_loop d c m b a s"
proof (induction d c m b a s rule: backoff_loop.induct)
  case (1 d c m b a s)
  show ?case
  proof (cases "a \<le> m")
    case False
    then show ?thesis
      by (simp add: backoff_loop_exit backoff_loop_any.simps)
  next
    case True
    obtain t s1 where t: "backoff_try c a s = (t, s1)"
      by (cases "backoff_try c a s")
    then have any: "backoff_try_any (throws_errors c) a s = (Inr t, s1)"
      by (simp add: backoff_try_any_errors)
    show ?thesis
    proof (cases t)
      case True
      with \<open>a \<le> m\<close> any backoff_loop_step [OF \<open>a \<le> m\<close> t, of d b] show ?thesis
        by (subst backoff_loop_any.simps) simp
    next
      case False
      then have "t = False" by simp
      from "1.IH" [OF \<open>a \<le> m\<close> t [symmetric] this]
      have "backoff_loop_any d (throws_errors c) m b (a + 1) (backoff_delay d m b a s1)
          = backoff_loop d c m b (a + 1) (backoff_delay d m b a s1)" .
      with \<open>a \<le> m\<close> any False backoff_loop_step [OF \<open>a \<le> m\<close> t, of d b] show ?thesis
        by (subst backoff_loop_any.simps) simp
    qed
  qed
qed

lemma waitWithBackoff_any_errors:
  "waitWithBackoff_any d (throws_errors c) m b s = waitWithBackoff d c m b s"
  by (simp add: waitWithBackoff_any_def waitWithBackoff_def backoff_loop_any_errors)

text \<open>
  C5. The claim fails on the code for a condition that throws a value with no string
  form. With five attempts allowed and a condition that throws a \<open>Symbol\<close> at its first
  evaluation and would return true at its second, the call raises the \<open>TypeError\<close> of
  the \<open>catch\<close> block after that one evaluation: nothing is logged for the attempt,
  there is no pause and no second evaluation. When the first evaluation throws an
  \<open>Error\<close> instead, the exception is swallowed as the claim says: it is logged at debug
  level, the poller pauses 1000 ms, evaluates again and returns normally.
\<close>

theorem backoff_symbol_escapes:
  "waitWithBackoff_any idle_driver symbol_first 5 1000 \<lparr>world = 0, trace = []\<rparr> =
     (Inl (JsError ''TypeError'' ''Cannot convert a Symbol value to a string''),
      \<lparr>world = 1,
       trace = [Log LvDebug ''Waiting with exponential backoff, max attempts: 5'', CondEval]\<rparr>) \<and>
   waitWithBackoff_any idle_driver error_first 5 1000 \<lparr>world = 0, trace = []\<rparr> =
     (Inr (),
      \<lparr>world = 2,
       trace = [Log LvDebug ''Waiting with exponential backoff, max attempts: 5'', CondEval,
                Log LvDebug ''Attempt 1 failed: Error: not ready'',
                Log LvDebug ''Waiting 1000ms before next attempt'', Pause 1000, CondEval]\<rparr>)"
  by code_simp

subsection \<open>Two calls in succession\<close>

text \<open>
  C8. With at least one attempt allowed, \<open>waitWithBackoff\<close> called twice in succession
  with a condition that is true at both calls returns normally both times, each time
  after a single evaluation and without any pause. Nothing carries over from one call
  to the next: the result, the final world and everything the call emits are determined
  by the arguments and the world the call starts in, whatever the trace of earlier calls
  holds; and a call made right after one that used up all its attempts counts from
  attempt 1 again, with \<open>maxAttempts\<close> evaluations and the pauses from
  \<open>baseDelay * 2^0\<close> on.
\<close>

theorem backoff_idempotent_stateless:
  "(1 \<le> m \<and> fst (c (world s)) = Inr True \<and> fst (c (snd (c (world s)))) = Inr True \<longrightarrow>
      (let s1 = snd (waitWithBackoff d c m b s) in
         fst (waitWithBackoff d c m b s) = Inr () \<and>
         fst (waitWithBackoff d c m b s1) = Inr () \<and>
         calls_of (emitted s s1) = [CondEval] \<and>
         calls_of (emitted s1 (snd (waitWithBackoff d c m b s1))) = [CondEval] \<and>
         pauses_of (emitted s s1) = [] \<and>
         pauses_of (emitted s1 (snd (waitWithBackoff d c m b s1))) = [])) \<and>
   (world s2 = world s \<longrightarrow>
      fst (waitWithBackoff d c m b s2) = fst (waitWithBackoff d c m b s) \<and>
      world (snd (waitWithBackoff d c m b s2)) = world (snd (waitWithBackoff d c m b s)) \<and>
      emitted s2 (snd (waitWithBackoff d c m b s2)) = emitted s (snd (waitWithBackoff d c m b s))) \<and>
   ((\<forall>j<nat m. fst (c (world_after d c b 1 (world s) j)) \<noteq> Inr True) \<and>
    (\<forall>j<nat m. fst (c (world_after d c b 1
                          (world (snd (waitWithBackoff d c m b s))) j)) \<noteq> Inr True) \<longrightarrow>
      (let s1 = snd (waitWithBackoff d c m b s) in
         fst (waitWithBackoff d c m b s) = Inl (not_met_error m) \<and>
         fst (waitWithBackoff d c m b s1) = Inl (not_met_error m) \<and>
         calls_of (emitted s s1) = backoff_schedule b (nat m) \<and>
         calls_of (emitted s1 (snd (waitWithBackoff d c m b s1))) = backoff_schedule b (nat m)))"
proof -
  let ?msg = "''Waiting with exponential backoff, max attempts: '' @ show_int m"
  let ?s1 = "\<lparr>world = snd (c (world s)), trace = trace s @ [Log LvDebug ?msg, CondEval]\<rparr>"
  have twice: "let s1 = snd (waitWithBackoff d c m b s) in
         fst (waitWithBackoff d c m b s) = Inr () \<and>
         fst (waitWithBackoff d c m b s1) = Inr () \<and>
         calls_of (emitted s s1) = [CondEval] \<and>
         calls_of (emitted s1 (snd (waitWithBackoff d c m b s1))) = [CondEval] \<and>
         pauses_of (emitted s s1) = [] \<and>
         pauses_of (emitted s1 (snd (waitWithBackoff d c m b s1))) = []"
    if h: "1 \<le> m \<and> fst (c (world s)) = Inr True \<and> fst (c (snd (c (world s)))) = Inr True"
  proof -
    from h have first: "waitWithBackoff d c m b s = (Inr (), ?s1)"
      by (simp add: waitWithBackoff_already_true)
    from h have second: "waitWithBackoff d c m b ?s1 =
        (Inr (), \<lparr>world = snd (c (world ?s1)), trace = trace ?s1 @ [Log LvDebug ?msg, CondEval]\<rparr>)"
      by (intro waitWithBackoff_already_true) simp_all
    show ?thesis
      unfolding Let_def first snd_conv fst_conv second
      by (simp add: emitted_def)
  qed
  have same: "fst (waitWithBackoff d c m b s2) = fst (waitWithBackoff d c m b s) \<and>
      world (snd (waitWithBackoff d c m b s2)) = world (snd (waitWithBackoff d c m b s)) \<and>
      emitted s2 (snd (waitWithBackoff d c m b s2)) = emitted s (snd (waitWithBackoff d c m b s))"
    if "world s2 = world s"
    using waitWithBackoff_rel [where c' = c and c = c and s = s and ?s2.0 = s2
      and d = d and m = m and b = b, OF _ that]
    by simp
  have full: "fst (waitWithBackoff d c m b q) = Inl (not_met_error m) \<and>
      calls_of (emitted q (snd (waitWithBackoff d c m b q))) = backoff_schedule b (nat m)"
    if "\<forall>j<nat m. fst (c (world_after d c b 1 (world q) j)) \<noteq> Inr True" for q
    using waitWithBackoff_fails [OF that] waitWithBackoff_run [of q d c m b] that
    by simp
  have again: "let s1 = snd (waitWithBackoff d c m b s) in
         fst (waitWithBackoff d c m b s) = Inl (not_met_error m) \<and>
         fst (waitWithBackoff d c m b s1) = Inl (not_met_error m) \<and>
         calls_of (emitted s s1) = backoff_schedule b (nat m) \<and>
         calls_of (emitted s1 (snd (waitWithBackoff d c m b s1))) = backoff_schedule b (nat m)"
    if "(\<forall>j<nat m. fst (c (world_after d c b 1 (world s) j)) \<noteq> Inr True) \<and>
        (\<forall>j<nat m. fst (c (world_after d c b 1
                          (world (snd (waitWithBackoff d c m b s))) j)) \<noteq> Inr True)"
    using full [of s] full [of "snd (waitWithBackoff d c m b s)"] that
    by (simp add: Let_def)
  from twice same again show ?thesis
    by blast
qed

theorem backoff_idempotent_stateless_witness:
  "fst (waitWithBackoff scripted_driver scripted_condition 5 1000 (start [Inr True, Inr True]))
     = Inr () \<and>
   fst (waitWithBackoff scripted_driver scripted_condition 5 1000
          (snd (waitWithBackoff scripted_driver scripted_condition 5 1000
                  (start [Inr True, Inr True])))) = Inr () \<and>
   pauses_of (emitted (start [Inr True, Inr True])
       (snd (waitWithBackoff scripted_driver scripted_condition 5 1000
               (start [Inr True, Inr True])))) = [] \<and>
   pauses_of (emitted
       (snd (waitWithBackoff scripted_driver scripted_condition 5 1000
               (start [Inr True, Inr True])))
       (snd (waitWithBackoff scripted_driver scripted_condition 5 1000
               (snd (waitWithBackoff scripted_driver scripted_condition 5 1000
                       (start [Inr True, Inr True])))))) = [] \<and>
   calls_of (emitted
       (snd (waitWithBackoff scripted_driver scripted_condition 2 1000 (start [Inr False])))
       (snd (waitWithBackoff scripted_driver scripted_condition 2 1000
               (snd (waitWithBackoff scripted_driver scripted_condition 2 1000
                       (start [Inr False]))))))
     = [CondEval, Pause 1000, CondEval]"
proof -
  have "fst (scripted_condition (world (start [Inr True, Inr True]))) = Inr True"
    and "fst (scripted_condition (snd (scripted_condition (world (start [Inr True, Inr True])))))
           = Inr True"
    by (simp_all add: scripted_condition_def)
  with backoff_idempotent_stateless [where m = 5 and c = scripted_condition
      and s = "start [Inr True, Inr True]" and d = scripted_driver and b = 1000
      and ?s2.0 = "start [Inr True, Inr True]"]
  have A: "fst (waitWithBackoff scripted_driver scripted_condition 5 1000
                 (start [Inr True, Inr True])) = Inr () \<and>
   fst (waitWithBackoff scripted_driver scripted_condition 5 1000
          (snd (waitWithBackoff scripted_driver scripted_condition 5 1000
                  (start [Inr True, Inr True])))) = Inr () \<and>
   pauses_of (emitted (start [Inr True, Inr True])
       (snd (waitWithBackoff scripted_driver scripted_condition 5 1000
               (start [Inr True, Inr True])))) = [] \<and>
   pauses_of (emitted
       (snd (waitWithBackoff scripted_driver scripted_condition 5 1000
               (start [Inr True, Inr True])))
       (snd (waitWithBackoff scripted_driver scripted_condition 5 1000
               (snd (waitWithBackoff scripted_driver scripted_condition 5 1000
                       (start [Inr True, Inr True])))))) = []"
    by (simp add: Let_def)
  let ?q = "start [Inr False]"
  have w1: "world (snd (waitWithBackoff scripted_driver scripted_condition 2 1000 ?q)) = []"
    by code_simp
  have n1: "fst (scripted_condition
      (world_after scripted_driver scripted_condition 1000 1 (world ?q) j)) \<noteq> Inr True" for j
    unfolding world_after_scripted world_start
    by (rule scripted_condition_not_true) simp
  have n2: "fst (scripted_condition
      (world_after scripted_driver scripted_condition 1000 1
         (world (snd (waitWithBackoff scripted_driver scripted_condition 2 1000 ?q))) j))
        \<noteq> Inr True" for j
    unfolding world_after_scripted w1
    by (rule scripted_condition_not_true) simp
  have sched: "backoff_schedule 1000 (nat 2) = [CondEval, Pause 1000, CondEval]"
    by (simp add: backoff_schedule_def upt_conv_Cons)
  from backoff_idempotent_stateless [where m = 2 and c = scripted_condition
      and s = ?q and d = scripted_driver and b = 1000 and ?s2.0 = ?q] n1 n2
  have B: "calls_of (emitted
       (snd (waitWithBackoff scripted_driver scripted_condition 2 1000 ?q))
       (snd (waitWithBackoff scripted_driver scripted_condition 2 1000
               (snd (waitWithBackoff scripted_driver scripted_condition 2 1000 ?q)))))
     = backoff_schedule 1000 (nat 2)"
    by (simp add: Let_def)
  from A B show ?thesis
    unfolding sched by (intro conjI) simp_all
qed

text \<open>
  C8, the part that fails: with \<open>maxAttempts = 0\<close> the loop is not entered, and a
  condition that is true is never evaluated; the call raises.
\<close>

theorem backoff_no_attempt_counterexample:
  "waitWithBackoff scripted_driver (\<lambda>w. (Inr True, w)) 0 1000 (start []) =
     (Inl (JsError ''Error'' ''Condition not met after 0 attempts with exponential backoff''),
      \<lparr>world = [],
       trace = [Log LvDebug ''Waiting with exponential backoff, max attempts: 0'']\<rparr>)"
  by code_simp

subsection \<open>safeClick retries, safeType does not\<close>

lemma safeClick_try_steps:
  "safeClick_try d selector s =
     (case resolve d selector (world s) of
        (Inl e, w1) \<Rightarrow> (Inl e, after s w1 [Resolve selector])
      | (Inr el, w1) \<Rightarrow>
          (case el_waitForClickable d el 10000 w1 of
             (Inl e, w2) \<Rightarrow> (Inl e, after s w2 [Resolve selector, WaitForClickable el 10000])
           | (Inr u, w2) \<Rightarrow>
               (case el_click d el w2 of
                  (Inl e, w3) \<Rightarrow>
                    (Inl e, after s w3 [Resolve selector, WaitForClickable el 10000, Click el])
                | (Inr v, w3) \<Rightarrow>
                    (Inr (),
                     after s w3
                       [Resolve selector, WaitForClickable el 10000, Click el,
                        Log LvInfo (''Successfully clicked element: '' @ selector)]))))"
  by (simp add: safeClick_try_def waitForClickable_def call_def logger_def after_def
      default_timeout_def split: prod.splits sum.splits)

lemma safeType_steps:
  "safeType d selector text s =
     (case resolve d selector (world s) of
        (Inl e, w1) \<Rightarrow> (Inl e, after s w1 [Resolve selector])
      | (Inr el, w1) \<Rightarrow>
          (case el_waitForDisplayed d el 10000 False w1 of
             (Inl e, w2) \<Rightarrow>
               (Inl e, after s w2 [Resolve selector, WaitForDisplayed el 10000 False])
           | (Inr u, w2) \<Rightarrow>
               (case el_clearValue d el w2 of
                  (Inl e, w3) \<Rightarrow>
                    (Inl e,
                     after s w3
                       [Resolve selector, WaitForDisplayed el 10000 False, ClearValue el])
                | (Inr v, w3) \<Rightarrow>
                    (case el_setValue d el text w3 of
                       (Inl e, w4) \<Rightarrow>
                         (Inl e,
                          after s w4
                            [Resolve selector, WaitForDisplayed el 10000 False, ClearValue el,
                             SetValue el text])
                     | (Inr x, w4) \<Rightarrow>
                         (Inr (),
                          after s w4
                            [Resolve selector, WaitForDisplayed el 10000 False, ClearValue el,
                             SetValue el text,
                             Log LvInfo
                               (''Successfully typed text into element: '' @ selector)])))))"
  by (simp add: safeType_def waitForVisible_def call_def logger_def after_def
      default_timeout_def split: prod.splits sum.splits)

text \<open>As long as the attempts fail and are not the last, the loop goes on to the next.\<close>

lemma safeClick_loop_reaches:
  "\<forall>i<k. isl (fst (safeClick_try d selector (attempt_start d selector s i))) \<Longrightarrow>
   int k < n \<Longrightarrow>
     safeClick_loop d selector n 0 s =
       safeClick_loop d selector n (int k) (attempt_start d selector s k)"
proof (induction k)
  case 0
  show ?case by simp
next
  case (Suc k)
  let ?q = "attempt_start d selector s k"
  from Suc.prems have "\<forall>i<k. isl (fst (safeClick_try d selector (attempt_start d selector s i)))"
    and "int k < n"
    by simp_all
  then have IH: "safeClick_loop d selector n 0 s = safeClick_loop d selector n (int k) ?q"
    by (rule Suc.IH)
  from Suc.prems(1) have "isl (fst (safeClick_try d selector ?q))"
    by simp
  then obtain e s' where t: "safeClick_try d selector ?q = (Inl e, s')"
    by (cases "safeClick_try d selector ?q") (auto simp: isl_def)
  from Suc.prems(2) have "int k \<noteq> n - 1" by simp
  from safeClick_loop_retry [OF \<open>int k < n\<close> t this]
  have "safeClick_loop d selector n (int k) ?q =
      safeClick_loop d selector n (int k + 1)
        (pause d 1000 (logger LvWarn (click_failed_msg (int k) selector e) s'))" .
  also have "pause d 1000 (logger LvWarn (click_failed_msg (int k) selector e) s')
      = attempt_start d selector s (Suc k)"
    by (simp add: t)
  also have "int k + 1 = int (Suc k)" by simp
  finally show ?case
    using IH by simp
qed

lemma safeClick_first_success:
  assumes "\<forall>i<k. isl (fst (safeClick_try d selector (attempt_start d selector s i)))"
    and "int k < n"
    and "safeClick_try d selector (attempt_start d selector s k) = (Inr (), s')"
  shows "safeClick d selector n s = (Inr (), s')"
proof -
  have "safeClick_loop d selector n (int k) (attempt_start d selector s k) = (Inr (), s')"
    by (rule safeClick_loop_ok [OF assms(2,3)])
  with safeClick_loop_reaches [OF assms(1,2)] show ?thesis
    by (simp add: safeClick_def)
qed

lemma safeClick_all_fail:
  assumes "\<forall>i<k. isl (fst (safeClick_try d selector (attempt_start d selector s i)))"
    and "int k = n - 1"
    and "safeClick_try d selector (attempt_start d selector s k) = (Inl e, s')"
  shows "safeClick d selector n s =
           (Inl e, logger LvWarn (click_failed_msg (n - 1) selector e) s')"
proof -
  from assms(2) have "int k < n" by simp
  from safeClick_loop_last [OF this assms(3,2)] assms(2)
  have "safeClick_loop d selector n (int k) (attempt_start d selector s k) =
      (Inl e, logger LvWarn (click_failed_msg (n - 1) selector e) s')"
    by simp
  with safeClick_loop_reaches [OF assms(1) \<open>int k < n\<close>] show ?thesis
    by (simp add: safeClick_def)
qed

lemma safe_interaction_bounds:
  "(let r = safeClick d selector n s; evs = emitted s (snd r);
        k = count_list evs (Resolve selector) in
      int k \<le> max 0 n \<and>
      pauses_of evs = replicate (k - 1) 1000 \<and>
      set (wait_timeouts evs) \<subseteq> {10000} \<and>
      (\<forall>e. fst r = Inl e \<longrightarrow>
         int k = n \<and> length (logs_of LvWarn evs) = k \<and>
         (\<exists>q q'. safeClick_try d selector q = (Inl e, q') \<and>
            snd r = logger LvWarn (click_failed_msg (n - 1) selector e) q'))) \<and>
   (let r = safeType d selector text s; evs = emitted s (snd r) in
      count_list evs (Resolve selector) = 1 \<and>
      pauses_of evs = [] \<and>
      logs_of LvWarn evs = [] \<and>
      set (wait_timeouts evs) \<subseteq> {10000})"
proof -
  obtain r s' where click: "safeClick d selector n s = (r, s')"
    by (cases "safeClick d selector n s")
  then have "safeClick_loop d selector n 0 s = (r, s')"
    by (simp add: safeClick_def)
  from safeClick_loop_obs [OF this] obtain evs where evs:
    "trace s' = trace s @ evs"
    "int (count_list evs (Resolve selector)) \<le> max 0 (n - 0)"
    "pauses_of evs = replicate (count_list evs (Resolve selector) - 1) 1000"
    "set (wait_timeouts evs) \<subseteq> {default_timeout}"
    "\<forall>e. r = Inl e \<longrightarrow>
          int (count_list evs (Resolve selector)) = n - 0 \<and>
          length (logs_of LvWarn evs) = count_list evs (Resolve selector) \<and>
          (\<exists>q q'. safeClick_try d selector q = (Inl e, q') \<and>
             s' = logger LvWarn (click_failed_msg (n - 1) selector e) q')"
    by blast
  from evs(1) have "emitted s s' = evs"
    by (rule emitted_append)
  with evs have A: "let r = safeClick d selector n s; evs = emitted s (snd r);
        k = count_list evs (Resolve selector) in
      int k \<le> max 0 n \<and>
      pauses_of evs = replicate (k - 1) 1000 \<and>
      set (wait_timeouts evs) \<subseteq> {10000} \<and>
      (\<forall>e. fst r = Inl e \<longrightarrow>
         int k = n \<and> length (logs_of LvWarn evs) = k \<and>
         (\<exists>q q'. safeClick_try d selector q = (Inl e, q') \<and>
            snd r = logger LvWarn (click_failed_msg (n - 1) selector e) q'))"
    unfolding Let_def click fst_conv snd_conv
    by (simp add: default_timeout_def)
  obtain r2 s2 where type: "safeType d selector text s = (r2, s2)"
    by (cases "safeType d selector text s")
  from safeType_obs [OF type] obtain ev2 where ev2:
    "trace s2 = trace s @ ev2" "pauses_of ev2 = []" "logs_of LvWarn ev2 = []"
    "count_list ev2 (Resolve selector) = 1" "set (wait_timeouts ev2) \<subseteq> {default_timeout}"
    by blast
  from ev2(1) have "emitted s s2 = ev2"
    by (rule emitted_append)
  with ev2 have B: "let r = safeType d selector text s; evs = emitted s (snd r) in
      count_list evs (Resolve selector) = 1 \<and>
      pauses_of evs = [] \<and>
      logs_of LvWarn evs = [] \<and>
      set (wait_timeouts evs) \<subseteq> {10000}"
    unfolding Let_def type fst_conv snd_conv
    by (simp add: default_timeout_def)
  from A B show ?thesis
    by (rule conjI)
qed


text \<open>
  C6. \<open>safeClick\<close> is a retry decorator and \<open>safeType\<close> is not.
  An attempt of \<open>safeClick\<close> resolves the locator, waits until the element is clickable
  with a timeout of 10000 ms, clicks it and logs the success at info level; the first
  of these steps that fails ends the attempt with its error. \<open>safeClick\<close> returns
  normally in the state of the first attempt that succeeds, if that is one of the first
  \<open>retries\<close>; every failed attempt before it was logged at warn level and followed by
  a pause of 1000 ms, and the next attempt resolved the locator again. When all
  \<open>retries\<close> attempts fail, \<open>safeClick\<close> raises the error of the last one, after
  logging it. In every run there are at most \<open>retries\<close> resolutions, a pause of 1000 ms
  between two of them, and no readiness timeout but 10000 ms.
  \<open>safeType\<close> makes a single attempt: it resolves the locator, waits until the element
  is displayed with a timeout of 10000 ms, clears it, sets the value and logs the
  success at info level; the first step that fails ends the call with its error, and
  there is no second resolution, no pause and no entry at warn level.
\<close>

theorem safe_interactions:
  "safeClick_try d selector s =
     (case resolve d selector (world s) of
        (Inl e, w1) \<Rightarrow> (Inl e, after s w1 [Resolve selector])
      | (Inr el, w1) \<Rightarrow>
          (case el_waitForClickable d el 10000 w1 of
             (Inl e, w2) \<Rightarrow> (Inl e, after s w2 [Resolve selector, WaitForClickable el 10000])
           | (Inr u, w2) \<Rightarrow>
               (case el_click d el w2 of
                  (Inl e, w3) \<Rightarrow>
                    (Inl e, after s w3 [Resolve selector, WaitForClickable el 10000, Click el])
                | (Inr v, w3) \<Rightarrow>
                    (Inr (),
                     after s w3
                       [Resolve selector, WaitForClickable el 10000, Click el,
                        Log LvInfo (''Successfully clicked element: '' @ selector)])))) \<and>
   ((\<forall>i<k. isl (fst (safeClick_try d selector (attempt_start d selector s i)))) \<and> int k < n \<and>
    safeClick_try d selector (attempt_start d selector s k) = (Inr (), s') \<longrightarrow>
      safeClick d selector n s = (Inr (), s')) \<and>
   ((\<forall>i<k. isl (fst (safeClick_try d selector (attempt_start d selector s i)))) \<and> int k = n - 1 \<and>
    safeClick_try d selector (attempt_start d selector s k) = (Inl e, s') \<longrightarrow>
      safeClick d selector n s =
        (Inl e, logger LvWarn (click_failed_msg (n - 1) selector e) s')) \<and>
   safeType d selector text s =
     (case resolve d selector (world s) of
        (Inl e, w1) \<Rightarrow> (Inl e, after s w1 [Resolve selector])
      | (Inr el, w1) \<Rightarrow>
          (case el_waitForDisplayed d el 10000 False w1 of
             (Inl e, w2) \<Rightarrow>
               (Inl e, after s w2 [Resolve selector, WaitForDisplayed el 10000 False])
           | (Inr u, w2) \<Rightarrow>
               (case el_clearValue d el w2 of
                  (Inl e, w3) \<Rightarrow>
                    (Inl e,
                     after s w3
                       [Resolve selector, WaitForDisplayed el 10000 False, ClearValue el])
                | (Inr v, w3) \<Rightarrow>
                    (case el_setValue d el text w3 of
                       (Inl e, w4) \<Rightarrow>
                         (Inl e,
                          after s w4
                            [Resolve selector, WaitForDisplayed el 10000 False, ClearValue el,
                             SetValue el text])
                     | (Inr x, w4) \<Rightarrow>
                         (Inr (),
                          after s w4
                            [Resolve selector, WaitForDisplayed el 10000 False, ClearValue el,
                             SetValue el text,
                             Log LvInfo
                               (''Successfully typed text into element: '' @ selector)]))))) \<and>
   (let r = safeClick d selector n s; evs = emitted s (snd r);
        k = count_list evs (Resolve selector) in
      int k \<le> max 0 n \<and>
      pauses_of evs = replicate (k - 1) 1000 \<and>
      set (wait_timeouts evs) \<subseteq> {10000} \<and>
      (\<forall>e. fst r = Inl e \<longrightarrow>
         int k = n \<and> length (logs_of LvWarn evs) = k \<and>
         (\<exists>q q'. safeClick_try d selector q = (Inl e, q') \<and>
            snd r = logger LvWarn (click_failed_msg (n - 1) selector e) q'))) \<and>
   (let r = safeType d selector text s; evs = emitted s (snd r) in
      count_list evs (Resolve selector) = 1 \<and>
      pauses_of evs = [] \<and>
      logs_of LvWarn evs = [] \<and>
      set (wait_timeouts evs) \<subseteq> {10000})"
  using safeClick_try_steps [of d selector s] safeType_steps [of d selector "text" s]
    safeClick_first_success [of k d selector s n s']
    safeClick_all_fail [of k d selector s n e s']
    safe_interaction_bounds [of d selector n s "text"]
  by blast

theorem safe_interactions_witness:
  "safeClick scripted_driver ''#buy'' 2
       (start [Inl (new_Error ''stale''), Inl (new_Error ''covered''), Inr True]) =
     (Inl (JsError ''Error'' ''covered''),
      \<lparr>world = [Inr True],
       trace = [Resolve ''#buy'', WaitForClickable 4 10000, Click 4,
                Log LvWarn ''Click attempt 1 failed for #buy: Error: stale'', Pause 1000,
                Resolve ''#buy'', WaitForClickable 4 10000, Click 4,
                Log LvWarn ''Click attempt 2 failed for #buy: Error: covered'']\<rparr>) \<and>
   safeClick scripted_driver ''#buy'' 3
       (start [Inl (new_Error ''stale''), Inl (new_Error ''covered''), Inr True]) =
     (Inr (),
      \<lparr>world = [],
       trace = [Resolve ''#buy'', WaitForClickable 4 10000, Click 4,
                Log LvWarn ''Click attempt 1 failed for #buy: Error: stale'', Pause 1000,
                Resolve ''#buy'', WaitForClickable 4 10000, Click 4,
                Log LvWarn ''Click attempt 2 failed for #buy: Error: covered'', Pause 1000,
                Resolve ''#buy'', WaitForClickable 4 10000, Click 4,
                Log LvInfo ''Successfully clicked element: #buy'']\<rparr>) \<and>
   safeType scripted_driver ''#buy'' ''abc''
       (start [Inl (new_Error ''stale''), Inl (new_Error ''covered''), Inr True]) =
     (Inl (JsError ''Error'' ''stale''),
      \<lparr>world = [Inl (new_Error ''covered''), Inr True],
       trace = [Resolve ''#buy'', WaitForDisplayed 4 10000 False, ClearValue 4,
                SetValue 4 ''abc'']\<rparr>)"
proof -
  let ?s = "start [Inl (new_Error ''stale''), Inl (new_Error ''covered''), Inr True]"
  let ?e1 = "JsError ''Error'' ''stale''" and ?e2 = "JsError ''Error'' ''covered''"
  let ?a = "(\<lparr>world = [Inl (new_Error ''covered''), Inr True],
             trace = [Resolve ''#buy'', WaitForClickable 4 10000, Click 4]\<rparr> :: (script, nat) state)"
  let ?b = "(\<lparr>world = [Inr True],
             trace = [Resolve ''#buy'', WaitForClickable 4 10000, Click 4,
                Log LvWarn ''Click attempt 1 failed for #buy: Error: stale'', Pause 1000,
                Resolve ''#buy'', WaitForClickable 4 10000, Click 4]\<rparr> :: (script, nat) state)"
  let ?c = "(\<lparr>world = [],
       trace = [Resolve ''#buy'', WaitForClickable 4 10000, Click 4,
                Log LvWarn ''Click attempt 1 failed for #buy: Error: stale'', Pause 1000,
                Resolve ''#buy'', WaitForClickable 4 10000, Click 4,
                Log LvWarn ''Click attempt 2 failed for #buy: Error: covered'', Pause 1000,
                Resolve ''#buy'', WaitForClickable 4 10000, Click 4,
                Log LvInfo ''Successfully clicked element: #buy'']\<rparr> :: (script, nat) state)"
  have t0: "safeClick_try scripted_driver ''#buy'' (attempt_start scripted_driver ''#buy'' ?s 0)
      = (Inl ?e1, ?a)"
    by code_simp
  have t1: "safeClick_try scripted_driver ''#buy'' (attempt_start scripted_driver ''#buy'' ?s 1)
      = (Inl ?e2, ?b)"
    by code_simp
  have t2: "safeClick_try scripted_driver ''#buy'' (attempt_start scripted_driver ''#buy'' ?s 2)
      = (Inr (), ?c)"
    by code_simp
  have f1: "\<forall>i<1. isl (fst (safeClick_try scripted_driver ''#buy''
      (attempt_start scripted_driver ''#buy'' ?s i)))"
    using t0 by simp
  have f2: "\<forall>i<2. isl (fst (safeClick_try scripted_driver ''#buy''
      (attempt_start scripted_driver ''#buy'' ?s i)))"
  proof (intro allI impI)
    fix i :: nat assume "i < 2"
    then have "i = 0 \<or> i = 1" by arith
    with t0 t1 show "isl (fst (safeClick_try scripted_driver ''#buy''
      (attempt_start scripted_driver ''#buy'' ?s i)))"
      by auto
  qed
  have m2: "logger LvWarn (click_failed_msg (2 - 1) ''#buy'' ?e2) ?b =
      (\<lparr>world = [Inr True],
       trace = [Resolve ''#buy'', WaitForClickable 4 10000, Click 4,
                Log LvWarn ''Click attempt 1 failed for #buy: Error: stale'', Pause 1000,
                Resolve ''#buy'', WaitForClickable 4 10000, Click 4,
                Log LvWarn ''Click attempt 2 failed for #buy: Error: covered'']\<rparr>
         :: (script, nat) state)"
    by code_simp
  note fail = safe_interactions [where d = scripted_driver and selector = "''#buy''"
      and s = ?s and k = 1 and n = 2 and e = ?e2 and s' = ?b and ?text = "''abc''",
      THEN conjunct2, THEN conjunct2, THEN conjunct1]
  note ok = safe_interactions [where d = scripted_driver and selector = "''#buy''"
      and s = ?s and k = 2 and n = 3 and e = ?e2 and s' = ?c and ?text = "''abc''",
      THEN conjunct2, THEN conjunct1]
  note type = safe_interactions [where d = scripted_driver and selector = "''#buy''"
      and s = ?s and k = 2 and n = 3 and e = ?e2 and s' = ?c and ?text = "''abc''",
      THEN conjunct2, THEN conjunct2, THEN conjunct2, THEN conjunct1]
  from fail f1 t1 have A: "safeClick scripted_driver ''#buy'' 2 ?s =
      (Inl ?e2, logger LvWarn (click_failed_msg (2 - 1) ''#buy'' ?e2) ?b)"
    by simp
  from ok f2 t2 have B: "safeClick scripted_driver ''#buy'' 3 ?s = (Inr (), ?c)"
    by simp
  have C: "safeType scripted_driver ''#buy'' ''abc'' ?s =
     (Inl ?e1,
      \<lparr>world = [Inl (new_Error ''covered''), Inr True],
       trace = [Resolve ''#buy'', WaitForDisplayed 4 10000 False, ClearValue 4,
                SetValue 4 ''abc'']\<rparr>)"
    unfolding type
    by (simp add: scripted_driver_def scripted_action_def start_def after_def new_Error_def)
  from A B C show ?thesis
    unfolding m2 by (intro conjI)
qed

text \<open>
  C6, the part that fails: \<open>safeType\<close> does not retry. On a script whose first action
  fails and whose second would succeed, \<open>safeClick\<close> succeeds at its second attempt,
  while \<open>safeType\<close> raises the first error after one resolution, without pausing or
  logging.
\<close>

theorem safeType_no_retry_counterexample:
  "safeType scripted_driver ''#email'' ''a@b.c'' (start [Inl (new_Error ''stale''), Inr True])
     = (Inl (JsError ''Error'' ''stale''),
        \<lparr>world = [Inr True],
         trace = [Resolve ''#email'', WaitForDisplayed 6 10000 False, ClearValue 6,
                  SetValue 6 ''a@b.c'']\<rparr>) \<and>
   fst (safeClick scripted_driver ''#email'' 3 (start [Inl (new_Error ''stale''), Inr True]))
     = Inr ()"
  by code_simp

end
